theory Spec2Isabelle
  imports Main "HOL-Library.Sublist" "HOL-Library.AList"
begin

section \<open>Loop perforation: the loop-count and loop-perf passes of LoopPerforation.cpp\<close>

text \<open>
  The file embeds the two LLVM passes of \<^verbatim>\<open>loop-perf/LoopPerforation.cpp\<close>:
  \<^verbatim>\<open>LoopCountPass\<close> (discovery) and \<^verbatim>\<open>LoopPerforationPass\<close> (rewrite), with the helpers
  \<^verbatim>\<open>StringifyLoop\<close> and \<^verbatim>\<open>isLoopPerforable\<close>.

  LLVM and the JSON library are not part of the repository. What the passes ask of them
  is data of the model: the answers of the loop analysis are fields of a loop, the
  use-def graph is a store from addresses to nodes, and a JSON value is a datatype with
  the operations the passes call. Text written to \<^verbatim>\<open>errs()\<close> has no reader in the
  program and is not part of the state.
\<close>

subsection \<open>The IR as the passes see it\<close>

type_synonym addr = nat

datatype llvm_type = IntegerTy nat | OtherTy

text \<open>
  A \<^verbatim>\<open>Value*\<close>: an integer constant, which LLVM keeps unique per type and value, so that
  pointer equality is equality of width and value (the value is held as the signed reading
  of the bits); or the address of any other value (instruction, argument, ...).
\<close>

datatype Value = ConstantInt nat int | Ref addr

datatype BinaryOps =
  Add | FAdd | Sub | FSub | Mul | FMul | UDiv | SDiv | FDiv | URem | SRem | FRem
  | Shl | LShr | AShr | And | Or | Xor

datatype value_kind = PHINode | BinaryOperator BinaryOps | OtherValue

text \<open>
  A node of the use-def graph. For a PHI node the operands are its incoming values.
  \<open>users\<close> is the use list in the order LLVM enumerates it, one entry per use.
\<close>

record Node =
  kind :: value_kind
  getType :: llvm_type
  operands :: "Value list"
  users :: "addr list"

type_synonym IR = "addr \<Rightarrow> Node"

record Function =
  fn_name :: string
  fn_module :: string

record BasicBlock =
  bb_addr :: nat
  printAsOperand :: string
  getParent :: Function

text \<open>
  A loop of LoopInfo: the answers of \<^verbatim>\<open>getHeader\<close>, \<^verbatim>\<open>getBlocks\<close>, \<^verbatim>\<open>isLoopLatch\<close>,
  \<^verbatim>\<open>isLoopExiting\<close>, \<^verbatim>\<open>isLoopSimplifyForm\<close> and \<^verbatim>\<open>getCanonicalInductionVariable\<close>
  (\<open>None\<close> is the null pointer), and the sub-loops.
\<close>

record LoopAnalysis =
  la_header :: BasicBlock
  la_blocks :: "BasicBlock list"
  la_latches :: "nat list"
  la_exiting :: "nat list"
  la_simplify_form :: bool
  la_canonical_iv :: "addr option"

datatype Loop = Loop (analysis: LoopAnalysis) (getSubLoops: "Loop list")

definition getHeader :: "Loop \<Rightarrow> BasicBlock" where
  "getHeader L = la_header (analysis L)"

definition getBlocks :: "Loop \<Rightarrow> BasicBlock list" where
  "getBlocks L = la_blocks (analysis L)"

definition isLoopLatch :: "Loop \<Rightarrow> BasicBlock \<Rightarrow> bool" where
  "isLoopLatch L BB = (bb_addr BB \<in> set (la_latches (analysis L)))"

definition isLoopExiting :: "Loop \<Rightarrow> BasicBlock \<Rightarrow> bool" where
  "isLoopExiting L BB = (bb_addr BB \<in> set (la_exiting (analysis L)))"

definition isLoopSimplifyForm :: "Loop \<Rightarrow> bool" where
  "isLoopSimplifyForm L = la_simplify_form (analysis L)"

definition getCanonicalInductionVariable :: "Loop \<Rightarrow> addr option" where
  "getCanonicalInductionVariable L = la_canonical_iv (analysis L)"

definition incoming_values :: "Node \<Rightarrow> Value list" where
  "incoming_values n = operands n"

text \<open>\<^verbatim>\<open>Op->getType()\<close>.\<close>

definition typeOf :: "IR \<Rightarrow> Value \<Rightarrow> llvm_type" where
  "typeOf s v = (case v of ConstantInt w x \<Rightarrow> IntegerTy w | Ref a \<Rightarrow> getType (s a))"

text \<open>\<^verbatim>\<open>isa<BinaryOperator>(V)\<close> and \<^verbatim>\<open>dyn_cast<BinaryOperator>(V)\<close> on a non-null value.\<close>

definition isa_BinaryOperator :: "IR \<Rightarrow> Value \<Rightarrow> bool" where
  "isa_BinaryOperator s v =
     (case v of ConstantInt w x \<Rightarrow> False
      | Ref a \<Rightarrow> (case kind (s a) of BinaryOperator opc \<Rightarrow> True | _ \<Rightarrow> False))"

definition dyn_cast_BinaryOperator :: "IR \<Rightarrow> Value \<Rightarrow> addr option" where
  "dyn_cast_BinaryOperator s v =
     (case v of ConstantInt w x \<Rightarrow> None
      | Ref a \<Rightarrow> (case kind (s a) of BinaryOperator opc \<Rightarrow> Some a | _ \<Rightarrow> None))"

subsection \<open>Machine integers\<close>

text \<open>The signed reading of the low \<open>w\<close> bits of \<open>x\<close> (two's complement).\<close>

definition swrap :: "nat \<Rightarrow> int \<Rightarrow> int" where
  "swrap w x = (x + 2 ^ (w - 1)) mod 2 ^ w - 2 ^ (w - 1)"

subsection \<open>JSON values\<close>

text \<open>
  The JSON values the passes can meet: null (a default-constructed \<^verbatim>\<open>json\<close>, also what
  \<^verbatim>\<open>= {}\<close> assigns), integers, strings, arrays and objects. Booleans and floating-point
  numbers are left out. An object is an association list with \<open>map_of\<close> for the lookup.
\<close>

datatype json = JNull | JInt int | JString string | JArray "json list"
  | JObject "(string \<times> json) list"

datatype error = NullPointer | JsonTypeError | JsonParseError | NotIntegerType

text \<open>\<^verbatim>\<open>j.contains(key)\<close>: only an object contains keys.\<close>

definition json_contains :: "json \<Rightarrow> string \<Rightarrow> bool" where
  "json_contains J k = (case J of JObject al \<Rightarrow> map_of al k \<noteq> None | _ \<Rightarrow> False)"

text \<open>
  \<^verbatim>\<open>j[key]\<close> read at a key: the stored value. At a key that is absent the library
  inserts null and returns it; the rewrite pass subscripts only behind \<^verbatim>\<open>contains\<close>.
\<close>

definition json_at :: "json \<Rightarrow> string \<Rightarrow> json" where
  "json_at J k = (case J of JObject al \<Rightarrow> (case map_of al k of Some v \<Rightarrow> v | None \<Rightarrow> JNull)
                  | _ \<Rightarrow> JNull)"

text \<open>\<^verbatim>\<open>j.empty()\<close>.\<close>

definition json_empty :: "json \<Rightarrow> bool" where
  "json_empty J = (case J of JNull \<Rightarrow> True | JObject al \<Rightarrow> al = [] | JArray xs \<Rightarrow> xs = []
                   | _ \<Rightarrow> False)"

text \<open>
  The conversion \<^verbatim>\<open>int LoopRate = j[..][..][..]\<close>: a number is cast to the 32-bit
  \<^verbatim>\<open>int\<close>, any other value is a type error of the library.
\<close>

definition json_to_int :: "json \<Rightarrow> error + int" where
  "json_to_int J = (case J of JInt r \<Rightarrow> Inr (swrap 32 r) | _ \<Rightarrow> Inl JsonTypeError)"

text \<open>
  \<^verbatim>\<open>j[k1][k2]...[kn] = v\<close>: each subscript turns null into an object, inserts a missing
  key, and raises a type error on any other value.
\<close>

fun subscript_assign :: "json \<Rightarrow> string list \<Rightarrow> json \<Rightarrow> error + json" where
  "subscript_assign J [] v = Inr v"
| "subscript_assign J (k # ks) v =
     (case J of
        JNull \<Rightarrow>
          (case subscript_assign JNull ks v of
             Inl e \<Rightarrow> Inl e
           | Inr x \<Rightarrow> Inr (JObject [(k, x)]))
      | JObject al \<Rightarrow>
          (case subscript_assign (case map_of al k of None \<Rightarrow> JNull | Some x \<Rightarrow> x) ks v of
             Inl e \<Rightarrow> Inl e
           | Inr x \<Rightarrow> Inr (JObject (AList.update k x al)))
      | _ \<Rightarrow> Inl JsonTypeError)"

subsection \<open>StringifyLoop\<close>

definition block_string :: "Loop \<Rightarrow> BasicBlock \<Rightarrow> string" where
  "block_string L BB =
     printAsOperand BB
     @ (if bb_addr BB = bb_addr (getHeader L) then ''<header>'' else [])
     @ (if isLoopLatch L BB then ''<latch>'' else [])
     @ (if isLoopExiting L BB then ''<exiting>'' else [])"

fun stringify_from :: "Loop \<Rightarrow> nat \<Rightarrow> BasicBlock list \<Rightarrow> string" where
  "stringify_from L i [] = []"
| "stringify_from L i (BB # rest) =
     (if i \<noteq> 0 then '','' else []) @ block_string L BB @ stringify_from L (Suc i) rest"

definition StringifyLoop :: "Loop \<Rightarrow> string" where
  "StringifyLoop L = stringify_from L 0 (getBlocks L)"

subsection \<open>isLoopPerforable\<close>

text \<open>\<^verbatim>\<open>s.find(p)\<close>: the first position of \<open>p\<close> in \<open>s\<close>; \<open>None\<close> is \<^verbatim>\<open>npos\<close>.\<close>

fun str_find :: "string \<Rightarrow> string \<Rightarrow> nat option" where
  "str_find [] p = (if p = [] then Some 0 else None)"
| "str_find (c # cs) p =
     (if prefix p (c # cs) then Some 0 else map_option Suc (str_find cs p))"

text \<open>
  The inner loop over \<^verbatim>\<open>PHI->incoming_values()\<close> for one user: the first incoming value
  equal to the user, where the loop breaks.
\<close>

fun scanIncoming :: "Value list \<Rightarrow> addr \<Rightarrow> Value option" where
  "scanIncoming [] User = None"
| "scanIncoming (Incoming # rest) User =
     (if Incoming = Ref User then Some Incoming else scanIncoming rest User)"

text \<open>
  The outer loop over \<^verbatim>\<open>PHI->users()\<close>: the break leaves the inner loop only, so every
  later match overwrites \<^verbatim>\<open>ValueToChange\<close>. Both passes run these two loops.
\<close>

fun scanUsers :: "addr list \<Rightarrow> Value list \<Rightarrow> Value option \<Rightarrow> Value option" where
  "scanUsers [] incoming ValueToChange = ValueToChange"
| "scanUsers (User # rest) incoming ValueToChange =
     scanUsers rest incoming
       (case scanIncoming incoming User of
          Some v \<Rightarrow> Some v
        | None \<Rightarrow> ValueToChange)"

definition isLoopPerforable :: "IR \<Rightarrow> Loop \<Rightarrow> bool" where
  "isLoopPerforable s L =
     (let F = getParent (getHeader L) in
      if str_find (fn_name F) ''NO_PERF'' \<noteq> None then False
      else if \<not> isLoopSimplifyForm L then False
      else (case getCanonicalInductionVariable L of
              None \<Rightarrow> False
            | Some PHI \<Rightarrow>
                (case scanUsers (users (s PHI)) (incoming_values (s PHI)) None of
                   None \<Rightarrow> False
                 | Some ValueToChange \<Rightarrow>
                     if \<not> isa_BinaryOperator s ValueToChange then False else True)))"

subsection \<open>The pass state\<close>

text \<open>
  What a pass can read and write: the IR, its member \<^verbatim>\<open>j\<close>, and the files by name.
\<close>

record State =
  ir :: IR
  pass_j :: json
  files :: "string \<rightharpoonup> string"

subsection \<open>LoopCountPass\<close>

text \<open>
  \<^verbatim>\<open>handleLoop\<close>, and the range-for over a list of loops that \<^verbatim>\<open>handleLoop\<close> runs on
  the sub-loops and \<^verbatim>\<open>runOnFunction\<close> on the top-level loops of LoopInfo. The
  assignment \<^verbatim>\<open>= {}\<close> stores a default-constructed value, which is null. The counter
  \<^verbatim>\<open>NumLoops\<close> is never read by the pass; it is kept as an integer without a bound.
\<close>

fun handleLoop :: "Function \<Rightarrow> Loop \<Rightarrow> int \<Rightarrow> State \<Rightarrow> error + (int \<times> State)"
  and handleLoops :: "Function \<Rightarrow> Loop list \<Rightarrow> int \<Rightarrow> State \<Rightarrow> error + (int \<times> State)"
where
  "handleLoop F (Loop d subs) NumLoops w =
     (if isLoopPerforable (ir w) (Loop d subs) then
        (case subscript_assign (pass_j w)
                [fn_module F, fn_name F, StringifyLoop (Loop d subs)] JNull of
           Inl e \<Rightarrow> Inl e
         | Inr J \<Rightarrow> handleLoops F subs (NumLoops + 1) (w\<lparr>pass_j := J\<rparr>))
      else handleLoops F subs NumLoops w)"
| "handleLoops F [] NumLoops w = Inr (NumLoops, w)"
| "handleLoops F (L # Ls) NumLoops w =
     (case handleLoop F L NumLoops w of
        Inl e \<Rightarrow> Inl e
      | Inr (n, w') \<Rightarrow> handleLoops F Ls n w')"

definition runOnFunction :: "Function \<Rightarrow> Loop list \<Rightarrow> State \<Rightarrow> error + (bool \<times> State)" where
  "runOnFunction F LI w =
     (case handleLoops F LI 0 w of
        Inl e \<Rightarrow> Inl e
      | Inr (NumLoops, w') \<Rightarrow> Inr (False, w'))"

text \<open>
  The destructor: one write of \<^verbatim>\<open>j.dump(4)\<close> and a newline to the file named by
  \<^verbatim>\<open>-info\<close>. The serialiser is the library's and is a parameter.
\<close>

definition LoopCountPass_destructor :: "(json \<Rightarrow> string) \<Rightarrow> string \<Rightarrow> State \<Rightarrow> State" where
  "LoopCountPass_destructor dump4 InfoFilename w =
     w\<lparr>files := (files w)(InfoFilename \<mapsto> dump4 (pass_j w) @ [CHR 0x0A])\<rparr>"

text \<open>
  The pass manager runs a function pass on each function of the module in turn, with the
  LoopInfo of that function.
\<close>

fun runLoopCountPass :: "(Function \<times> Loop list) list \<Rightarrow> State \<Rightarrow> error + State" where
  "runLoopCountPass [] w = Inr w"
| "runLoopCountPass ((F, LI) # rest) w =
     (case runOnFunction F LI w of
        Inl e \<Rightarrow> Inl e
      | Inr (changed, w') \<Rightarrow> runLoopCountPass rest w')"

subsection \<open>LoopPerforationPass\<close>

definition fileexists :: "(string \<rightharpoonup> string) \<Rightarrow> string \<Rightarrow> bool" where
  "fileexists fs filename = (fs filename \<noteq> None)"

text \<open>
  The constructor: \<^verbatim>\<open>j\<close> is null unless the file named by \<^verbatim>\<open>-rates\<close> exists, and then
  it is the parsed contents. The parser is the library's and is a parameter.
\<close>

definition LoopPerforationPass_constructor ::
    "(string \<Rightarrow> json option) \<Rightarrow> string \<Rightarrow> (string \<rightharpoonup> string) \<Rightarrow> error + json" where
  "LoopPerforationPass_constructor parse RatesFilename fs =
     (if fileexists fs RatesFilename then
        (case fs RatesFilename of
           None \<Rightarrow> Inr JNull
         | Some buffer \<Rightarrow>
             (case parse buffer of None \<Rightarrow> Inl JsonParseError | Some v \<Rightarrow> Inr v))
      else Inr JNull)"

text \<open>
  \<^verbatim>\<open>Op = NewInc\<close> on operand \<open>i\<close> of the user \<open>u\<close>: the use leaves the use list of the old
  operand and the slot holds the new value. Use lists of constants are not modelled.
\<close>

definition dropUse :: "IR \<Rightarrow> Value \<Rightarrow> addr \<Rightarrow> IR" where
  "dropUse s v u =
     (case v of
        ConstantInt w x \<Rightarrow> s
      | Ref a \<Rightarrow> s(a := (s a)\<lparr>users := remove1 u (users (s a))\<rparr>))"

definition setOperand :: "IR \<Rightarrow> addr \<Rightarrow> nat \<Rightarrow> Value \<Rightarrow> IR" where
  "setOperand s u i v =
     (let s1 = dropUse s (operands (s u) ! i) u
      in s1(u := (s1 u)\<lparr>operands := (operands (s1 u))[i := v]\<rparr>))"

text \<open>
  \<^verbatim>\<open>ConstantInt::get(ConstType, LoopRate, true)\<close>: the type must be an integer type, and
  the constant holds the low bits of the sign-extended \<^verbatim>\<open>LoopRate\<close>.
\<close>

definition ConstantInt_get :: "llvm_type \<Rightarrow> int \<Rightarrow> error + Value" where
  "ConstantInt_get ConstType V =
     (case ConstType of
        IntegerTy w \<Rightarrow> Inr (ConstantInt w (swrap w V))
      | OtherTy \<Rightarrow> Inl NotIntegerType)"

text \<open>
  The loop over \<^verbatim>\<open>Increment->operands()\<close>, at operand index \<open>i\<close> with the operands still
  to visit. The empty list is the line after the loop.
\<close>

fun rewriteOperands ::
    "State \<Rightarrow> Function \<Rightarrow> Loop \<Rightarrow> addr \<Rightarrow> addr \<Rightarrow> nat \<Rightarrow> Value list \<Rightarrow> error + (bool \<times> State)" where
  "rewriteOperands w F L PHI Increment i [] = Inr (False, w)"
| "rewriteOperands w F L PHI Increment i (Op # rest) =
     (if Op = Ref PHI then rewriteOperands w F L PHI Increment (Suc i) rest
      else
        (case (if \<not> json_empty (pass_j w)
               then json_to_int
                      (json_at (json_at (json_at (pass_j w) (fn_module F)) (fn_name F))
                         (StringifyLoop L))
               else Inr 1) of
           Inl e \<Rightarrow> Inl e
         | Inr LoopRate \<Rightarrow>
             (case ConstantInt_get (typeOf (ir w) Op) LoopRate of
                Inl e \<Rightarrow> Inl e
              | Inr NewInc \<Rightarrow>
                  Inr (True, w\<lparr>ir := setOperand (ir w) Increment i NewInc\<rparr>))))"

definition runOnLoop :: "Loop \<Rightarrow> State \<Rightarrow> error + (bool \<times> State)" where
  "runOnLoop L w =
     (let F = getParent (getHeader L) in
      if \<not> json_contains (pass_j w) (fn_module F)
         \<or> \<not> json_contains (json_at (pass_j w) (fn_module F)) (fn_name F)
         \<or> \<not> json_contains (json_at (json_at (pass_j w) (fn_module F)) (fn_name F))
               (StringifyLoop L)
      then Inr (False, w)
      else
        (case getCanonicalInductionVariable L of
           None \<Rightarrow> Inl NullPointer
         | Some PHI \<Rightarrow>
             (case scanUsers (users (ir w PHI)) (incoming_values (ir w PHI)) None of
                None \<Rightarrow> Inl NullPointer
              | Some ValueToChange \<Rightarrow>
                  (case dyn_cast_BinaryOperator (ir w) ValueToChange of
                     None \<Rightarrow> Inl NullPointer
                   | Some Increment \<Rightarrow>
                       rewriteOperands w F L PHI Increment 0
                         (operands (ir w Increment))))))"

subsection \<open>Notions used to state the properties\<close>

text \<open>The value stored under a path of keys; \<open>None\<close> when some key on the path is absent.\<close>

fun json_lookup :: "json \<Rightarrow> string list \<Rightarrow> json option" where
  "json_lookup J [] = Some J"
| "json_lookup J (k # ks) =
     (case J of
        JObject al \<Rightarrow> (case map_of al k of None \<Rightarrow> None | Some x \<Rightarrow> json_lookup x ks)
      | _ \<Rightarrow> None)"

text \<open>The key of a loop: module name, function name, fingerprint.\<close>

definition loop_key :: "Loop \<Rightarrow> string list" where
  "loop_key L =
     [fn_module (getParent (getHeader L)), fn_name (getParent (getHeader L)), StringifyLoop L]"

definition table_entry :: "json \<Rightarrow> Loop \<Rightarrow> json option" where
  "table_entry J L = json_lookup J (loop_key L)"

text \<open>
  A catalog of depth \<open>n\<close>: null, or an object whose values are catalogs of depth \<open>n - 1\<close>.
  The catalog of the loop-count pass has depth 3 at every moment.
\<close>

fun catalog_shape :: "nat \<Rightarrow> json \<Rightarrow> bool" where
  "catalog_shape 0 J = True"
| "catalog_shape (Suc n) J =
     (case J of
        JNull \<Rightarrow> True
      | JObject al \<Rightarrow> list_all (\<lambda>kv. catalog_shape n (snd kv)) al
      | _ \<Rightarrow> False)"

text \<open>Every loop of a loop forest, parents before their sub-loops.\<close>

fun loops_of :: "Loop \<Rightarrow> Loop list"
  and loops_of_list :: "Loop list \<Rightarrow> Loop list"
where
  "loops_of (Loop d subs) = Loop d subs # loops_of_list subs"
| "loops_of_list [] = []"
| "loops_of_list (L # Ls) = loops_of L @ loops_of_list Ls"

text \<open>
  The fingerprints that the loop-count pass is to record for a function: those of the
  loops of its forest that \<open>isLoopPerforable\<close> accepts.
\<close>

definition perforable_fingerprints :: "IR \<Rightarrow> Loop list \<Rightarrow> string list" where
  "perforable_fingerprints s LI =
     map StringifyLoop (filter (isLoopPerforable s) (loops_of_list LI))"

text \<open>
  The keys under which the loop-count pass is to record the loops of a function, and the
  relation between the catalog before and after recording a set of keys: the keys are
  mapped to null, every other key of depth 3 is as before.
\<close>

definition function_keys :: "Function \<Rightarrow> IR \<Rightarrow> Loop list \<Rightarrow> string list set" where
  "function_keys F s Ls =
     (\<lambda>L. [fn_module F, fn_name F, StringifyLoop L]) ` {L \<in> set Ls. isLoopPerforable s L}"

definition records :: "json \<Rightarrow> string list set \<Rightarrow> json \<Rightarrow> bool" where
  "records J K J' =
     (catalog_shape 3 J'
      \<and> (\<forall>ks. length ks = 3 \<longrightarrow>
             json_lookup J' ks = (if ks \<in> K then Some JNull else json_lookup J ks)))"

text \<open>The first operand that is not the induction variable, with its index.\<close>

fun firstNonIV :: "addr \<Rightarrow> nat \<Rightarrow> Value list \<Rightarrow> (nat \<times> Value) option" where
  "firstNonIV PHI i [] = None"
| "firstNonIV PHI i (Op # rest) =
     (if Op = Ref PHI then firstNonIV PHI (Suc i) rest else Some (i, Op))"

text \<open>
  The induction variable and the increment that the scan of a loop arrives at: the
  canonical induction variable, and the binary operator among its incoming values that
  the scan of its users selects.
\<close>

definition findIncrement :: "IR \<Rightarrow> Loop \<Rightarrow> (addr \<times> addr) option" where
  "findIncrement s L =
     (case getCanonicalInductionVariable L of
        None \<Rightarrow> None
      | Some PHI \<Rightarrow>
          (case scanUsers (users (s PHI)) (incoming_values (s PHI)) None of
             None \<Rightarrow> None
           | Some v \<Rightarrow>
               (case dyn_cast_BinaryOperator s v of
                  None \<Rightarrow> None
                | Some Increment \<Rightarrow> Some (PHI, Increment))))"

text \<open>
  What LLVM promises of the result of \<^verbatim>\<open>getCanonicalInductionVariable\<close>: a PHI node of
  the header with two incoming values, a constant from the preheader (zero) and, from the
  latch, an add whose first operand is the PHI node and whose second is a constant (one).
  The values of the two constants play no role below and are left open.
\<close>

definition isConstantInt :: "Value \<Rightarrow> bool" where
  "isConstantInt v = (case v of ConstantInt w x \<Rightarrow> True | Ref a \<Rightarrow> False)"

definition canonicalIncrement :: "IR \<Rightarrow> addr \<Rightarrow> Value \<Rightarrow> bool" where
  "canonicalIncrement s PHI v =
     (case v of
        ConstantInt w x \<Rightarrow> False
      | Ref inc \<Rightarrow>
          kind (s inc) = BinaryOperator Add
          \<and> (case operands (s inc) of
                [a, b] \<Rightarrow> a = Ref PHI \<and> isConstantInt b
              | _ \<Rightarrow> False))"

definition canonicalIV_contract :: "IR \<Rightarrow> Loop \<Rightarrow> bool" where
  "canonicalIV_contract s L =
     (case getCanonicalInductionVariable L of
        None \<Rightarrow> True
      | Some PHI \<Rightarrow>
          kind (s PHI) = PHINode
          \<and> (case incoming_values (s PHI) of
                [a, b] \<Rightarrow>
                  (isConstantInt a \<and> canonicalIncrement s PHI b)
                  \<or> (isConstantInt b \<and> canonicalIncrement s PHI a)
              | _ \<Rightarrow> False))"

subsection \<open>The five conditions of ineligibility, as the specification words them\<close>

definition cond_no_perf :: "Loop \<Rightarrow> bool" where
  "cond_no_perf L = sublist ''NO_PERF'' (fn_name (getParent (getHeader L)))"

definition cond_not_simplified :: "Loop \<Rightarrow> bool" where
  "cond_not_simplified L = (\<not> isLoopSimplifyForm L)"

definition cond_no_iv :: "Loop \<Rightarrow> bool" where
  "cond_no_iv L = (getCanonicalInductionVariable L = None)"

text \<open>The incoming values of the induction variable that are also users of it.\<close>

definition updating_values :: "IR \<Rightarrow> addr \<Rightarrow> Value list" where
  "updating_values s PHI =
     filter (\<lambda>v. v \<in> set (incoming_values (s PHI))) (map Ref (users (s PHI)))"

definition cond_no_update :: "IR \<Rightarrow> addr \<Rightarrow> bool" where
  "cond_no_update s PHI = (updating_values s PHI = [])"

definition cond_not_binary :: "IR \<Rightarrow> Value \<Rightarrow> bool" where
  "cond_not_binary s v =
     (case v of
        ConstantInt w x \<Rightarrow> True
      | Ref a \<Rightarrow> (\<forall>opc. kind (s a) \<noteq> BinaryOperator opc))"

text \<open>
  The conditions checked in order, each one only when the ones before it do not hold.
  Where several incoming values are users, the updating value is the one of the last user.
\<close>

definition isPerforable_spec :: "IR \<Rightarrow> Loop \<Rightarrow> bool" where
  "isPerforable_spec s L =
     (if cond_no_perf L then False
      else if cond_not_simplified L then False
      else if cond_no_iv L then False
      else if cond_no_update s (the (getCanonicalInductionVariable L)) then False
      else if cond_not_binary s (last (updating_values s (the (getCanonicalInductionVariable L))))
           then False
      else True)"

subsection \<open>A module to run the passes on\<close>

text \<open>
  Function \<open>foo\<close> of module \<open>mod\<close> with the loop \<^verbatim>\<open>for (i = 0; i < n; i++)\<close>:
  \<^verbatim>\<open>%1 = phi i32 [0, %entry], [%2, %for.inc]\<close>, \<^verbatim>\<open>%3 = icmp slt i32 %1, %4\<close>,
  \<^verbatim>\<open>br i1 %3, ...\<close> (node 5), \<^verbatim>\<open>%2 = add i32 %1, 1\<close>; \<^verbatim>\<open>%4\<close> is the argument \<open>n\<close>.
  Function \<open>bar_NO_PERF\<close> has the same loop on nodes 21 to 25.
\<close>

definition ex_foo :: Function where
  "ex_foo = \<lparr>fn_name = ''foo'', fn_module = ''mod''\<rparr>"

definition ex_bar :: Function where
  "ex_bar = \<lparr>fn_name = ''bar_NO_PERF'', fn_module = ''mod''\<rparr>"

definition ex_cond :: BasicBlock where
  "ex_cond = \<lparr>bb_addr = 10, printAsOperand = ''%for.cond'', getParent = ex_foo\<rparr>"

definition ex_body :: BasicBlock where
  "ex_body = \<lparr>bb_addr = 11, printAsOperand = ''%for.body'', getParent = ex_foo\<rparr>"

definition ex_inc :: BasicBlock where
  "ex_inc = \<lparr>bb_addr = 12, printAsOperand = ''%for.inc'', getParent = ex_foo\<rparr>"

definition ex_loop :: Loop where
  "ex_loop =
     Loop \<lparr>la_header = ex_cond, la_blocks = [ex_cond, ex_body, ex_inc], la_latches = [12],
           la_exiting = [10], la_simplify_form = True, la_canonical_iv = Some 1\<rparr> []"

definition ex_fingerprint :: string where
  "ex_fingerprint = ''%for.cond<header><exiting>,%for.body,%for.inc<latch>''"

definition ex_other :: Node where
  "ex_other = \<lparr>kind = OtherValue, getType = OtherTy, operands = [], users = []\<rparr>"

definition ex_phi :: "addr \<Rightarrow> Node" where
  "ex_phi a = \<lparr>kind = PHINode, getType = IntegerTy 32,
               operands = [ConstantInt 32 0, Ref (a + 1)], users = [a + 2, a + 1]\<rparr>"

definition ex_add :: "addr \<Rightarrow> Node" where
  "ex_add a = \<lparr>kind = BinaryOperator Add, getType = IntegerTy 32,
               operands = [Ref a, ConstantInt 32 1], users = [a]\<rparr>"

definition ex_icmp :: "addr \<Rightarrow> Node" where
  "ex_icmp a = \<lparr>kind = OtherValue, getType = IntegerTy 1,
                operands = [Ref a, Ref (a + 3)], users = [a + 4]\<rparr>"

definition ex_arg :: "addr \<Rightarrow> Node" where
  "ex_arg a = \<lparr>kind = OtherValue, getType = IntegerTy 32, operands = [], users = [a + 2]\<rparr>"

definition ex_br :: "addr \<Rightarrow> Node" where
  "ex_br a = \<lparr>kind = OtherValue, getType = OtherTy, operands = [Ref (a + 2)], users = []\<rparr>"

definition ex_ir :: IR where
  "ex_ir = (\<lambda>a. ex_other)
     (1 := ex_phi 1, 2 := ex_add 1, 3 := ex_icmp 1, 4 := ex_arg 1, 5 := ex_br 1,
      21 := ex_phi 21, 22 := ex_add 21, 23 := ex_icmp 21, 24 := ex_arg 21, 25 := ex_br 21)"

text \<open>
  An outer loop of \<open>foo\<close> around the loop, with no canonical induction variable, and the
  loop of \<open>bar_NO_PERF\<close>.
\<close>

definition ex_outer_header :: BasicBlock where
  "ex_outer_header = \<lparr>bb_addr = 9, printAsOperand = ''%while.cond'', getParent = ex_foo\<rparr>"

definition ex_end :: BasicBlock where
  "ex_end = \<lparr>bb_addr = 13, printAsOperand = ''%for.end'', getParent = ex_foo\<rparr>"

definition ex_outer :: Loop where
  "ex_outer =
     Loop \<lparr>la_header = ex_outer_header,
           la_blocks = [ex_outer_header, ex_cond, ex_body, ex_inc, ex_end],
           la_latches = [13], la_exiting = [9], la_simplify_form = True,
           la_canonical_iv = None\<rparr> [ex_loop]"

definition ex_bar_cond :: BasicBlock where
  "ex_bar_cond = \<lparr>bb_addr = 30, printAsOperand = ''%for.cond'', getParent = ex_bar\<rparr>"

definition ex_bar_body :: BasicBlock where
  "ex_bar_body = \<lparr>bb_addr = 31, printAsOperand = ''%for.body'', getParent = ex_bar\<rparr>"

definition ex_bar_inc :: BasicBlock where
  "ex_bar_inc = \<lparr>bb_addr = 32, printAsOperand = ''%for.inc'', getParent = ex_bar\<rparr>"

definition ex_bar_loop :: Loop where
  "ex_bar_loop =
     Loop \<lparr>la_header = ex_bar_cond, la_blocks = [ex_bar_cond, ex_bar_body, ex_bar_inc],
           la_latches = [32], la_exiting = [30], la_simplify_form = True,
           la_canonical_iv = Some 21\<rparr> []"

definition ex_state :: "json \<Rightarrow> State" where
  "ex_state J = \<lparr>ir = ex_ir, pass_j = J, files = Map.empty\<rparr>"

definition ex_rates :: "int \<Rightarrow> json" where
  "ex_rates R = JObject [(''mod'', JObject [(''foo'', JObject [(ex_fingerprint, JInt R)])])]"

definition ex_bar_rates :: "int \<Rightarrow> json" where
  "ex_bar_rates R =
     JObject [(''mod'', JObject [(''bar_NO_PERF'', JObject [(ex_fingerprint, JInt R)])])]"

text \<open>The IR after the step of the loop whose induction variable is \<open>a\<close> has been set to \<open>c\<close>.\<close>

definition ex_ir_step :: "addr \<Rightarrow> int \<Rightarrow> IR" where
  "ex_ir_step a c = ex_ir(a + 1 := (ex_add a)\<lparr>operands := [Ref a, ConstantInt 32 c]\<rparr>)"

section \<open>Properties\<close>

subsection \<open>Facts about the module above\<close>

lemmas ex_loop_defs = ex_loop_def ex_cond_def ex_body_def ex_inc_def ex_foo_def
  getHeader_def getBlocks_def isLoopLatch_def isLoopExiting_def isLoopSimplifyForm_def
  getCanonicalInductionVariable_def

lemmas ex_bar_loop_defs = ex_bar_loop_def ex_bar_cond_def ex_bar_body_def ex_bar_inc_def
  ex_bar_def getHeader_def getBlocks_def isLoopLatch_def isLoopExiting_def
  isLoopSimplifyForm_def getCanonicalInductionVariable_def

lemmas ex_ir_defs = ex_ir_def ex_phi_def ex_add_def ex_icmp_def ex_arg_def ex_br_def
  ex_other_def


lemma ex_loop_fingerprint: "StringifyLoop ex_loop = ex_fingerprint"
  by (simp add: StringifyLoop_def ex_loop_defs block_string_def ex_fingerprint_def)

lemma ex_bar_fingerprint: "StringifyLoop ex_bar_loop = ex_fingerprint"
  by (simp add: StringifyLoop_def ex_bar_loop_defs block_string_def ex_fingerprint_def)


lemma ex_loop_perforable: "isLoopPerforable ex_ir ex_loop"
  by (simp add: isLoopPerforable_def ex_loop_defs ex_ir_defs incoming_values_def
      isa_BinaryOperator_def)

lemma ex_bar_not_perforable: "\<not> isLoopPerforable ex_ir ex_bar_loop"
  by (simp add: isLoopPerforable_def ex_bar_loop_defs)

lemma ex_outer_not_perforable: "\<not> isLoopPerforable ex_ir ex_outer"
  by (simp add: isLoopPerforable_def ex_outer_def ex_outer_header_def ex_foo_def getHeader_def
      isLoopSimplifyForm_def getCanonicalInductionVariable_def)

lemma ex_findIncrement: "findIncrement ex_ir ex_loop = Some (1, 2)"
  by (simp add: findIncrement_def ex_loop_def getCanonicalInductionVariable_def ex_ir_defs
      incoming_values_def dyn_cast_BinaryOperator_def)

lemma ex_bar_findIncrement: "findIncrement ex_ir ex_bar_loop = Some (21, 22)"
  by (simp add: findIncrement_def ex_bar_loop_def getCanonicalInductionVariable_def ex_ir_defs
      incoming_values_def dyn_cast_BinaryOperator_def)

lemma ex_firstNonIV: "firstNonIV 1 0 (operands (ex_ir 2)) = Some (1, ConstantInt 32 1)"
  by (simp add: ex_ir_defs)

lemma ex_bar_firstNonIV: "firstNonIV 21 0 (operands (ex_ir 22)) = Some (1, ConstantInt 32 1)"
  by (simp add: ex_ir_defs)

lemma ex_setOperand: "setOperand ex_ir 2 (Suc 0) (ConstantInt 32 c) = ex_ir_step 1 c"
  by (rule ext) (simp add: setOperand_def dropUse_def ex_ir_step_def ex_ir_defs)

lemma ex_bar_setOperand: "setOperand ex_ir 22 (Suc 0) (ConstantInt 32 c) = ex_ir_step 21 c"
  by (rule ext) (simp add: setOperand_def dropUse_def ex_ir_step_def ex_ir_defs)

lemma ex_contract: "canonicalIV_contract ex_ir ex_loop"
  by (simp add: canonicalIV_contract_def canonicalIncrement_def isConstantInt_def ex_loop_def
      getCanonicalInductionVariable_def ex_ir_defs incoming_values_def)


lemma handleLoop_unfold:
  "handleLoop F L N w =
     (if isLoopPerforable (ir w) L then
        (case subscript_assign (pass_j w) [fn_module F, fn_name F, StringifyLoop L] JNull of
           Inl e \<Rightarrow> Inl e
         | Inr J \<Rightarrow> handleLoops F (getSubLoops L) (N + 1) (w\<lparr>pass_j := J\<rparr>))
      else handleLoops F (getSubLoops L) N w)"
  by (cases L) (simp del: subscript_assign.simps split: sum.splits)

text \<open>The loop-count pass on the module: one entry, for the inner loop of \<open>foo\<close>.\<close>

lemma ex_discovery_run:
  "runLoopCountPass [(ex_foo, [ex_outer]), (ex_bar, [ex_bar_loop])] (ex_state JNull)
     = Inr (ex_state (JObject [(''mod'', JObject [(''foo'', JObject [(ex_fingerprint, JNull)])])]))"
proof -
  have subs: "getSubLoops ex_outer = [ex_loop]" "getSubLoops ex_loop = []"
    "getSubLoops ex_bar_loop = []"
    by (simp_all add: ex_outer_def ex_loop_def ex_bar_loop_def)
  have s: "ir (ex_state J) = ex_ir" "pass_j (ex_state J) = J"
    "(ex_state J)\<lparr>pass_j := J'\<rparr> = ex_state J'" for J J'
    by (simp_all add: ex_state_def)
  show ?thesis
    by (simp add: runOnFunction_def handleLoop_unfold subs s ex_loop_perforable
        ex_outer_not_perforable ex_bar_not_perforable ex_loop_fingerprint ex_foo_def
        del: handleLoop.simps)
qed

subsection \<open>The membership test of the rewrite pass\<close>

lemma guard_iff_lookup:
  "(json_contains J m \<and> json_contains (json_at J m) f
      \<and> json_contains (json_at (json_at J m) f) fp)
   = (json_lookup J [m, f, fp] \<noteq> None)"
  by (auto simp: json_contains_def json_at_def split: json.splits option.splits)

lemma runOnLoop_absent:
  assumes "table_entry (pass_j w) L = None"
  shows "runOnLoop L w = Inr (False, w)"
proof -
  let ?F = "getParent (getHeader L)"
  have "\<not> (json_contains (pass_j w) (fn_module ?F)
           \<and> json_contains (json_at (pass_j w) (fn_module ?F)) (fn_name ?F)
           \<and> json_contains (json_at (json_at (pass_j w) (fn_module ?F)) (fn_name ?F))
                 (StringifyLoop L))"
    using assms unfolding guard_iff_lookup by (simp add: table_entry_def loop_key_def)
  then show ?thesis
    unfolding runOnLoop_def Let_def by (simp only: de_Morgan_conj if_True)
qed

lemma json_empty_lookup: "json_empty J \<Longrightarrow> json_lookup J (k # ks) = None"
  by (cases J) (simp_all add: json_empty_def)

lemma lookup_json_at:
  "json_lookup J [m, f, fp] = Some v \<Longrightarrow> json_at (json_at (json_at J m) f) fp = v"
  by (auto simp: json_at_def split: json.splits option.splits)

lemma ex_table_entry: "table_entry (ex_rates R) ex_loop = Some (JInt R)"
  unfolding table_entry_def loop_key_def ex_loop_fingerprint
  by (simp add: ex_rates_def ex_loop_def getHeader_def ex_cond_def ex_foo_def)

lemma ex_bar_table_entry: "table_entry (ex_bar_rates R) ex_bar_loop = Some (JInt R)"
  unfolding table_entry_def loop_key_def ex_bar_fingerprint
  by (simp add: ex_bar_rates_def ex_bar_loop_defs)


subsection \<open>C5: a loop without an entry is left alone\<close>

text \<open>
  C5. For every loop whose key (module name, function name, fingerprint) is absent from
  the rate table, the rewrite pass returns "unchanged" and the state it returns is the
  state it was given: the IR, the table and the files are the same.
\<close>

theorem rewrite_absent_entry_skipped:
  assumes "table_entry (pass_j w) L = None"
  shows "runOnLoop L w = Inr (False, w)"
  using assms by (rule runOnLoop_absent)

theorem rewrite_absent_entry_skipped_witness:
  "table_entry (pass_j (ex_state (ex_rates 4))) ex_bar_loop = None
   \<and> runOnLoop ex_bar_loop (ex_state (ex_rates 4)) = Inr (False, ex_state (ex_rates 4))"
proof -
  have h: "table_entry (pass_j (ex_state (ex_rates 4))) ex_bar_loop = None"
    by (simp add: table_entry_def loop_key_def ex_state_def ex_rates_def ex_bar_loop_defs)
  show ?thesis using h rewrite_absent_entry_skipped [OF h] by simp
qed

subsection \<open>C1: the empty rate table\<close>

text \<open>
  C1, as the code has it. With no rate file the constructor leaves the table null, and
  with an empty table the rewrite pass skips every loop: it returns "unchanged" and the
  state it was given. The default rate 1 is behind the membership test, which an empty
  table never passes.

  The claim as worded fails: the loop of \<open>foo\<close> is perforable, the table is the one the
  constructor builds without a file, and the pass reports the loop unchanged.
\<close>

theorem empty_table_skips_every_loop:
  assumes "fs RatesFilename = None"
  shows "LoopPerforationPass_constructor parse RatesFilename fs = Inr JNull
         \<and> json_empty JNull
         \<and> (\<forall>L w. json_empty (pass_j w) \<longrightarrow> runOnLoop L w = Inr (False, w))
         \<and> (\<forall>L w. table_entry (pass_j w) L \<noteq> None \<longrightarrow> \<not> json_empty (pass_j w))"
proof -
  have empty: "\<And>J L. json_empty J \<Longrightarrow> table_entry J L = None"
    unfolding table_entry_def loop_key_def by (rule json_empty_lookup)
  have skip: "\<forall>L w. json_empty (pass_j w) \<longrightarrow> runOnLoop L w = Inr (False, w)"
    by (intro allI impI, rule runOnLoop_absent, rule empty)
  have dead: "\<forall>L w. table_entry (pass_j w) L \<noteq> None \<longrightarrow> \<not> json_empty (pass_j w)"
    using empty by auto
  have ctor: "LoopPerforationPass_constructor parse RatesFilename fs = Inr JNull"
    using assms by (simp add: LoopPerforationPass_constructor_def fileexists_def)
  have null: "json_empty JNull"
    by (simp add: json_empty_def)
  from ctor null skip dead show ?thesis by blast
qed

theorem empty_table_skips_every_loop_witness:
  "Map.empty ''loop-rates.json'' = (None :: string option)
   \<and> LoopPerforationPass_constructor (\<lambda>b. None) ''loop-rates.json'' Map.empty = Inr JNull
   \<and> runOnLoop ex_loop (ex_state JNull) = Inr (False, ex_state JNull)"
proof -
  have h: "Map.empty ''loop-rates.json'' = (None :: string option)" by simp
  note t = empty_table_skips_every_loop [OF h, of "\<lambda>b. None"]
  from t have "json_empty (pass_j (ex_state JNull))
      \<longrightarrow> runOnLoop ex_loop (ex_state JNull) = Inr (False, ex_state JNull)"
    by blast
  moreover have "json_empty (pass_j (ex_state JNull))"
    by (simp add: ex_state_def json_empty_def)
  ultimately show ?thesis using t h by blast
qed

theorem default_rate_counterexample:
  "runLoopCountPass [(ex_foo, [ex_outer]), (ex_bar, [ex_bar_loop])] (ex_state JNull)
     = Inr (ex_state (JObject [(''mod'', JObject [(''foo'', JObject [(ex_fingerprint, JNull)])])]))
   \<and> StringifyLoop ex_loop = ex_fingerprint
   \<and> isLoopPerforable ex_ir ex_loop
   \<and> LoopPerforationPass_constructor (\<lambda>b. None) ''loop-rates.json'' Map.empty = Inr JNull
   \<and> runOnLoop ex_loop (ex_state JNull) = Inr (False, ex_state JNull)
   \<and> operands (ir (ex_state JNull) 2) = [Ref 1, ConstantInt 32 1]"
proof -
  have "runOnLoop ex_loop (ex_state JNull) = Inr (False, ex_state JNull)"
    by (simp add: runOnLoop_def json_contains_def ex_state_def)
  moreover have "LoopPerforationPass_constructor (\<lambda>b. None) ''loop-rates.json'' Map.empty
                   = Inr JNull"
    by (simp add: LoopPerforationPass_constructor_def fileexists_def)
  moreover have "operands (ir (ex_state JNull) 2) = [Ref 1, ConstantInt 32 1]"
    by (simp add: ex_state_def ex_ir_defs)
  ultimately show ?thesis
    using ex_discovery_run ex_loop_fingerprint ex_loop_perforable by simp
qed

subsection \<open>C7: the fingerprint\<close>

lemma stringify_from_cong:
  "(\<And>BB. BB \<in> set bs \<Longrightarrow> block_string L' BB = block_string L BB)
   \<Longrightarrow> stringify_from L' i bs = stringify_from L i bs"
  by (induction bs arbitrary: i) simp_all

text \<open>
  C7. The fingerprint of a loop is determined by the list of its member blocks in the
  order of enumeration, the header, and which member blocks are latches and exiting
  blocks: two loops (the loop at discovery and at rewrite time) that agree on these have
  the same fingerprint, whatever else differs.
\<close>

theorem fingerprint_depends_on_blocks_and_roles:
  assumes "getBlocks L' = getBlocks L"
    and "bb_addr (getHeader L') = bb_addr (getHeader L)"
    and "\<forall>BB \<in> set (getBlocks L).
           isLoopLatch L' BB = isLoopLatch L BB \<and> isLoopExiting L' BB = isLoopExiting L BB"
  shows "StringifyLoop L' = StringifyLoop L"
  unfolding StringifyLoop_def assms(1)
  by (rule stringify_from_cong) (simp add: block_string_def assms)

theorem fingerprint_depends_on_blocks_and_roles_witness:
  "getBlocks
      (Loop ((analysis ex_loop)\<lparr>la_latches := [12, 77], la_simplify_form := False,
                                la_canonical_iv := None\<rparr>) [ex_loop])
     = getBlocks ex_loop
   \<and> StringifyLoop
        (Loop ((analysis ex_loop)\<lparr>la_latches := [12, 77], la_simplify_form := False,
                                  la_canonical_iv := None\<rparr>) [ex_loop])
      = StringifyLoop ex_loop"
  using fingerprint_depends_on_blocks_and_roles
    [of "Loop ((analysis ex_loop)\<lparr>la_latches := [12, 77], la_simplify_form := False,
                                   la_canonical_iv := None\<rparr>) [ex_loop]" ex_loop]
  by (simp add: ex_loop_defs)

subsection \<open>C6: the eligibility check\<close>

lemma str_find_iff: "str_find s p \<noteq> None \<longleftrightarrow> sublist p s"
proof (induction s)
  case Nil
  then show ?case by auto
next
  case (Cons c cs)
  show ?case
  proof (cases "prefix p (c # cs)")
    case True
    then have "sublist p (c # cs)" by (rule prefix_imp_sublist)
    with True show ?thesis by simp
  next
    case False
    have "sublist p (c # cs) \<longleftrightarrow> sublist p cs"
      using False by (simp add: sublist_Cons_right)
    with False Cons.IH show ?thesis by simp
  qed
qed

lemma no_perf_not_perforable:
  "sublist ''NO_PERF'' (fn_name (getParent (getHeader L))) \<Longrightarrow> \<not> isLoopPerforable s L"
proof -
  assume "sublist ''NO_PERF'' (fn_name (getParent (getHeader L)))"
  then have "str_find (fn_name (getParent (getHeader L))) ''NO_PERF'' \<noteq> None"
    unfolding str_find_iff .
  then show ?thesis by (simp add: isLoopPerforable_def Let_def)
qed

lemma scanIncoming_eq:
  "scanIncoming incs u = (if Ref u \<in> set incs then Some (Ref u) else None)"
  by (induction incs) auto

lemma scanUsers_eq:
  "scanUsers us incs acc =
     (case filter (\<lambda>v. v \<in> set incs) (map Ref us) of
        [] \<Rightarrow> acc
      | x # xs \<Rightarrow> Some (last (x # xs)))"
proof (induction us arbitrary: acc)
  case Nil
  then show ?case by simp
next
  case (Cons u us)
  show ?case
    by (simp add: Cons.IH scanIncoming_eq split: list.splits)
qed

lemma scanUsers_None:
  "scanUsers (users (s p)) (incoming_values (s p)) None = None \<longleftrightarrow> cond_no_update s p"
  by (simp add: scanUsers_eq cond_no_update_def updating_values_def split: list.splits)

lemma scanUsers_Some:
  "scanUsers (users (s p)) (incoming_values (s p)) None = Some v
   \<longleftrightarrow> updating_values s p \<noteq> [] \<and> v = last (updating_values s p)"
  by (auto simp: scanUsers_eq updating_values_def split: list.splits)

lemma scanUsers_mem:
  "scanUsers us incs None = Some v \<Longrightarrow> v \<in> set incs \<and> (\<exists>u \<in> set us. v = Ref u)"
proof -
  assume a: "scanUsers us incs None = Some v"
  let ?xs = "filter (\<lambda>v. v \<in> set incs) (map Ref us)"
  from a have ne: "?xs \<noteq> []" and v: "v = last ?xs"
    by (auto simp: scanUsers_eq split: list.splits)
  then have "v \<in> set ?xs" using last_in_set by blast
  then show ?thesis by auto
qed

lemma isa_BinaryOperator_iff: "isa_BinaryOperator s v \<longleftrightarrow> \<not> cond_not_binary s v"
  by (auto simp: isa_BinaryOperator_def cond_not_binary_def split: Value.splits value_kind.splits)

lemma dyn_cast_iff:
  "dyn_cast_BinaryOperator s v = Some a \<longleftrightarrow> v = Ref a \<and> isa_BinaryOperator s v"
  by (auto simp: dyn_cast_BinaryOperator_def isa_BinaryOperator_def
      split: Value.splits value_kind.splits)

lemma dyn_cast_None: "dyn_cast_BinaryOperator s v = None \<longleftrightarrow> \<not> isa_BinaryOperator s v"
  by (auto simp: dyn_cast_BinaryOperator_def isa_BinaryOperator_def
      split: Value.splits value_kind.splits)

lemma dyn_cast_eq:
  "dyn_cast_BinaryOperator s v =
     (if isa_BinaryOperator s v then (case v of Ref a \<Rightarrow> Some a | ConstantInt w x \<Rightarrow> None)
      else None)"
  by (auto simp: dyn_cast_BinaryOperator_def isa_BinaryOperator_def
      split: Value.splits value_kind.splits)


text \<open>
  C6. \<open>isLoopPerforable\<close> returns true exactly when none of the five conditions holds,
  the conditions being tried in order and each only when the earlier ones do not hold:
  the function name contains \<open>NO_PERF\<close>; the loop is not in simplified form; there is no
  canonical induction variable; no incoming value of the induction variable is also a
  user of it; the updating value is not a binary operator. The code does not ask where
  the user is placed, so the fourth condition is about the incoming values and the
  users only.
\<close>

theorem isLoopPerforable_is_the_five_conditions:
  "isLoopPerforable s L = isPerforable_spec s L"
proof -
  have 1: "(str_find (fn_name (getParent (getHeader L))) ''NO_PERF'' \<noteq> None) = cond_no_perf L"
    unfolding cond_no_perf_def by (rule str_find_iff)
  show ?thesis
  proof (cases "getCanonicalInductionVariable L")
    case None
    then show ?thesis
      unfolding isLoopPerforable_def isPerforable_spec_def Let_def 1
      by (simp add: cond_not_simplified_def cond_no_iv_def)
  next
    case (Some p)
    show ?thesis
    proof (cases "scanUsers (users (s p)) (incoming_values (s p)) None")
      case None
      then have "cond_no_update s p" by (simp add: scanUsers_None)
      with None Some show ?thesis
        unfolding isLoopPerforable_def isPerforable_spec_def Let_def 1
        by (simp add: cond_not_simplified_def cond_no_iv_def)
    next
      case (Some v)
      then have "\<not> cond_no_update s p" and "v = last (updating_values s p)"
        by (simp_all add: scanUsers_Some cond_no_update_def)
      with Some \<open>getCanonicalInductionVariable L = Some p\<close> show ?thesis
        unfolding isLoopPerforable_def isPerforable_spec_def Let_def 1
        by (simp add: cond_not_simplified_def cond_no_iv_def isa_BinaryOperator_iff)
    qed
  qed
qed

theorem isLoopPerforable_is_the_five_conditions_witness:
  "isPerforable_spec ex_ir ex_loop \<and> \<not> isPerforable_spec ex_ir ex_bar_loop
   \<and> \<not> isPerforable_spec ex_ir ex_outer"
  using isLoopPerforable_is_the_five_conditions [of ex_ir ex_loop]
        isLoopPerforable_is_the_five_conditions [of ex_ir ex_bar_loop]
        isLoopPerforable_is_the_five_conditions [of ex_ir ex_outer]
        ex_loop_perforable ex_bar_not_perforable ex_outer_not_perforable
  by simp


subsection \<open>C8: both passes arrive at the same induction variable and increment\<close>

lemma perforable_findIncrement:
  "isLoopPerforable s L \<longleftrightarrow>
     str_find (fn_name (getParent (getHeader L))) ''NO_PERF'' = None
     \<and> isLoopSimplifyForm L \<and> findIncrement s L \<noteq> None"
  by (auto simp: isLoopPerforable_def findIncrement_def Let_def dyn_cast_None dyn_cast_iff
      simp del: str_find.simps split: option.splits)

lemma findIncrement_Some:
  "findIncrement s L = Some (p, inc) \<longleftrightarrow>
     getCanonicalInductionVariable L = Some p
     \<and> scanUsers (users (s p)) (incoming_values (s p)) None = Some (Ref inc)
     \<and> isa_BinaryOperator s (Ref inc)"
  by (auto simp: findIncrement_def dyn_cast_iff dyn_cast_None split: option.splits)

lemma runOnLoop_present:
  assumes "table_entry (pass_j w) L \<noteq> None"
  shows "runOnLoop L w =
           (case findIncrement (ir w) L of
              None \<Rightarrow> Inl NullPointer
            | Some (p, inc) \<Rightarrow>
                rewriteOperands w (getParent (getHeader L)) L p inc 0 (operands (ir w inc)))"
proof -
  let ?F = "getParent (getHeader L)"
  have "json_contains (pass_j w) (fn_module ?F)
           \<and> json_contains (json_at (pass_j w) (fn_module ?F)) (fn_name ?F)
           \<and> json_contains (json_at (json_at (pass_j w) (fn_module ?F)) (fn_name ?F))
                 (StringifyLoop L)"
    using assms unfolding guard_iff_lookup by (simp add: table_entry_def loop_key_def)
  then show ?thesis
    unfolding runOnLoop_def Let_def findIncrement_def
    by (simp split: option.splits)
qed


text \<open>
  C8. The eligibility check writes nothing: its verdict is a function of the function
  name, the simplified-form answer, the canonical induction variable, the users and
  incoming values of that variable and whether the incoming values are binary operators.
  Between a loop \<open>L\<close> in the IR \<open>s\<close> of the discovery pass and the loop \<open>L'\<close> in the IR
  \<open>s'\<close> of the rewrite pass that agree on these, the scan of the rewrite pass finds the
  induction variable and the increment that the eligibility check found, and the
  rewrite pass goes on to the operands of that increment.
\<close>

theorem derivation_agrees_in_both_passes:
  assumes "getCanonicalInductionVariable L' = getCanonicalInductionVariable L"
    and "\<forall>p. getCanonicalInductionVariable L = Some p \<longrightarrow>
           users (s' p) = users (s p) \<and> incoming_values (s' p) = incoming_values (s p)
           \<and> (\<forall>v \<in> set (incoming_values (s p)).
                 isa_BinaryOperator s' v = isa_BinaryOperator s v)"
  shows "findIncrement s' L' = findIncrement s L
       \<and> (isLoopPerforable s L \<longrightarrow> findIncrement s L \<noteq> None)
       \<and> (getParent (getHeader L') = getParent (getHeader L)
            \<and> isLoopSimplifyForm L' = isLoopSimplifyForm L
          \<longrightarrow> isLoopPerforable s' L' = isLoopPerforable s L)
       \<and> (\<forall>w. ir w = s' \<and> table_entry (pass_j w) L' \<noteq> None \<and> isLoopPerforable s L \<longrightarrow>
              (\<exists>p inc. findIncrement s L = Some (p, inc)
                 \<and> runOnLoop L' w
                     = rewriteOperands w (getParent (getHeader L')) L' p inc 0
                         (operands (ir w inc))))"
proof -
  have eq: "findIncrement s' L' = findIncrement s L"
  proof (cases "getCanonicalInductionVariable L")
    case None
    with assms(1) show ?thesis by (simp add: findIncrement_def)
  next
    case (Some p)
    with assms(2) have u: "users (s' p) = users (s p)"
      and i: "incoming_values (s' p) = incoming_values (s p)"
      and b: "\<forall>v \<in> set (incoming_values (s p)). isa_BinaryOperator s' v = isa_BinaryOperator s v"
      by simp_all
    show ?thesis
    proof (cases "scanUsers (users (s p)) (incoming_values (s p)) None")
      case None
      with Some assms(1) u i show ?thesis by (simp add: findIncrement_def)
    next
      case (Some v)
      from scanUsers_mem [OF Some] b have "isa_BinaryOperator s' v = isa_BinaryOperator s v"
        by blast
      then have "dyn_cast_BinaryOperator s' v = dyn_cast_BinaryOperator s v"
        by (simp add: dyn_cast_eq)
      with Some \<open>getCanonicalInductionVariable L = Some p\<close> assms(1) u i show ?thesis
        by (simp add: findIncrement_def)
    qed
  qed
  have perf: "isLoopPerforable s L \<longrightarrow> findIncrement s L \<noteq> None"
    by (simp add: perforable_findIncrement)
  have pure: "getParent (getHeader L') = getParent (getHeader L)
            \<and> isLoopSimplifyForm L' = isLoopSimplifyForm L
          \<longrightarrow> isLoopPerforable s' L' = isLoopPerforable s L"
    using eq by (simp add: perforable_findIncrement)
  have rw: "\<exists>p inc. findIncrement s L = Some (p, inc)
                 \<and> runOnLoop L' w
                     = rewriteOperands w (getParent (getHeader L')) L' p inc 0
                         (operands (ir w inc))"
    if "ir w = s' \<and> table_entry (pass_j w) L' \<noteq> None \<and> isLoopPerforable s L" for w
  proof -
    from that perf obtain p inc where f: "findIncrement s L = Some (p, inc)" by auto
    from that have "table_entry (pass_j w) L' \<noteq> None" by simp
    from runOnLoop_present [OF this] that eq f show ?thesis by simp
  qed
  from eq perf pure rw show ?thesis by blast
qed

theorem derivation_agrees_in_both_passes_witness:
  "getCanonicalInductionVariable ex_loop = getCanonicalInductionVariable ex_loop
   \<and> findIncrement (ex_ir(3 := (ex_icmp 1)\<lparr>operands := [Ref 1, ConstantInt 32 100]\<rparr>)) ex_loop
       = findIncrement ex_ir ex_loop
   \<and> isLoopPerforable (ex_ir(3 := (ex_icmp 1)\<lparr>operands := [Ref 1, ConstantInt 32 100]\<rparr>)) ex_loop"
proof -
  let ?s' = "ex_ir(3 := (ex_icmp 1)\<lparr>operands := [Ref 1, ConstantInt 32 100]\<rparr>)"
  have h1: "getCanonicalInductionVariable ex_loop = getCanonicalInductionVariable ex_loop"
    by simp
  have h2: "\<forall>p. getCanonicalInductionVariable ex_loop = Some p \<longrightarrow>
           users (?s' p) = users (ex_ir p) \<and> incoming_values (?s' p) = incoming_values (ex_ir p)
           \<and> (\<forall>v \<in> set (incoming_values (ex_ir p)).
                 isa_BinaryOperator ?s' v = isa_BinaryOperator ex_ir v)"
    by (simp add: ex_loop_def getCanonicalInductionVariable_def ex_ir_defs incoming_values_def
        isa_BinaryOperator_def)
  note t = derivation_agrees_in_both_passes [OF h1 h2]
  have p: "getParent (getHeader ex_loop) = getParent (getHeader ex_loop)
            \<and> isLoopSimplifyForm ex_loop = isLoopSimplifyForm ex_loop" by simp
  from t have 1: "findIncrement ?s' ex_loop = findIncrement ex_ir ex_loop" by blast
  from t p have "isLoopPerforable ?s' ex_loop = isLoopPerforable ex_ir ex_loop" by blast
  with ex_loop_perforable have 2: "isLoopPerforable ?s' ex_loop" by blast
  from h1 1 2 show ?thesis by blast
qed


subsection \<open>The catalog of the loop-count pass\<close>

lemma catalog_shape_JNull: "catalog_shape n JNull"
  by (cases n) simp_all

lemma json_lookup_JNull: "json_lookup JNull ks = (if ks = [] then Some JNull else None)"
  by (cases ks) simp_all

lemma list_all_update:
  "list_all P al \<Longrightarrow> P (k, v) \<Longrightarrow> list_all P (AList.update k v al)"
  by (induction al) auto

lemma catalog_shape_map_of:
  "list_all (\<lambda>kv. catalog_shape n (snd kv)) al \<Longrightarrow> map_of al k = Some x \<Longrightarrow> catalog_shape n x"
  by (induction al) (auto split: if_splits)

lemma subscript_assign_ok:
  "catalog_shape (length ks) J \<Longrightarrow>
   \<exists>J'. subscript_assign J ks v = Inr J' \<and> catalog_shape (length ks) J' 
        \<and> (\<forall>ks'. length ks' = length ks \<longrightarrow>
               json_lookup J' ks' = (if ks' = ks then Some v else json_lookup J ks'))"
proof (induction ks arbitrary: J)
  case Nil
  then show ?case by simp
next
  case (Cons k ks)
  show ?case
  proof (cases J)
    case JNull
    from Cons.IH [of JNull] obtain x where
      x: "subscript_assign JNull ks v = Inr x" "catalog_shape (length ks) x"
         "\<forall>ks'. length ks' = length ks \<longrightarrow>
             json_lookup x ks' = (if ks' = ks then Some v else json_lookup JNull ks')"
      using catalog_shape_JNull by auto
    have "\<forall>ks'. length ks' = length (k # ks) \<longrightarrow>
            json_lookup (JObject [(k, x)]) ks'
              = (if ks' = k # ks then Some v else json_lookup J ks')"
    proof (intro allI impI)
      fix ks' :: "string list" assume "length ks' = length (k # ks)"
      then obtain k' ks'' where ks': "ks' = k' # ks''" "length ks'' = length ks"
        by (cases ks') auto
      then show "json_lookup (JObject [(k, x)]) ks'
              = (if ks' = k # ks then Some v else json_lookup J ks')"
        using x(3) JNull by (auto simp: json_lookup_JNull)
    qed
    then show ?thesis using x JNull by simp
  next
    case (JObject al)
    let ?sub = "case map_of al k of None \<Rightarrow> JNull | Some x \<Rightarrow> x"
    have al: "list_all (\<lambda>kv. catalog_shape (length ks) (snd kv)) al"
      using Cons.prems JObject by simp
    then have "catalog_shape (length ks) ?sub"
      by (auto simp: catalog_shape_JNull split: option.splits dest: catalog_shape_map_of)
    from Cons.IH [OF this] obtain x where
      x: "subscript_assign ?sub ks v = Inr x" "catalog_shape (length ks) x"
         "\<forall>ks'. length ks' = length ks \<longrightarrow>
             json_lookup x ks' = (if ks' = ks then Some v else json_lookup ?sub ks')"
      by auto
    have "\<forall>ks'. length ks' = length (k # ks) \<longrightarrow>
            json_lookup (JObject (AList.update k x al)) ks'
              = (if ks' = k # ks then Some v else json_lookup J ks')"
    proof (intro allI impI)
      fix ks' :: "string list" assume "length ks' = length (k # ks)"
      then obtain k' ks'' where ks': "ks' = k' # ks''" "length ks'' = length ks"
        by (cases ks') auto
      then show "json_lookup (JObject (AList.update k x al)) ks'
              = (if ks' = k # ks then Some v else json_lookup J ks')"
        using x(3) JObject
        by (auto simp: json_lookup_JNull update_conv' split: option.splits)
    qed
    moreover have "catalog_shape (length (k # ks)) (JObject (AList.update k x al))"
      using al x(2) by (simp add: list_all_update)
    ultimately show ?thesis using x(1) JObject by simp
  qed (use Cons.prems in simp_all)
qed

lemma records_refl: "catalog_shape 3 J \<Longrightarrow> records J {} J"
  by (simp add: records_def)

lemma records_trans:
  "records J K1 J1 \<Longrightarrow> records J1 K2 J2 \<Longrightarrow> records J (K1 \<union> K2) J2"
  by (auto simp: records_def)

lemma records_assign:
  assumes "catalog_shape 3 J"
  shows "\<exists>J'. subscript_assign J [a, b, c] JNull = Inr J' \<and> records J {[a, b, c]} J'"
  using subscript_assign_ok [of "[a, b, c]" J JNull] assms
  by (auto simp: records_def numeral_3_eq_3)

lemma function_keys_Cons:
  "function_keys F s (L # Ls) =
     (if isLoopPerforable s L then {[fn_module F, fn_name F, StringifyLoop L]} else {})
     \<union> function_keys F s Ls"
  by (auto simp: function_keys_def)

lemma function_keys_append:
  "function_keys F s (Ls @ Ms) = function_keys F s Ls \<union> function_keys F s Ms"
  by (auto simp: function_keys_def)

lemma handleLoop_records:
  shows "catalog_shape 3 (pass_j w) \<Longrightarrow>
         \<exists>n w'. handleLoop F L N w = Inr (n, w') \<and> ir w' = ir w \<and> files w' = files w
           \<and> records (pass_j w) (function_keys F (ir w) (loops_of L)) (pass_j w')
           \<and> n = N + int (length (filter (isLoopPerforable (ir w)) (loops_of L)))"
    and "catalog_shape 3 (pass_j w) \<Longrightarrow>
         \<exists>n w'. handleLoops F Ls N w = Inr (n, w') \<and> ir w' = ir w \<and> files w' = files w
           \<and> records (pass_j w) (function_keys F (ir w) (loops_of_list Ls)) (pass_j w')
           \<and> n = N + int (length (filter (isLoopPerforable (ir w)) (loops_of_list Ls)))"
proof (induction F L N w and F Ls N w rule: handleLoop_handleLoops.induct)
  case (1 F d subs NumLoops w)
  let ?L = "Loop d subs"
  show ?case
  proof (cases "isLoopPerforable (ir w) ?L")
    case True
    from records_assign [OF "1.prems"] obtain J where
      J: "subscript_assign (pass_j w) [fn_module F, fn_name F, StringifyLoop ?L] JNull = Inr J"
         "records (pass_j w) {[fn_module F, fn_name F, StringifyLoop ?L]} J"
      by blast
    have "catalog_shape 3 (pass_j (w\<lparr>pass_j := J\<rparr>))"
      using J(2) by (simp add: records_def)
    from "1.IH"(1) [OF True J(1) this] obtain n w' where
      r: "handleLoops F subs (NumLoops + 1) (w\<lparr>pass_j := J\<rparr>) = Inr (n, w')"
         "ir w' = ir w" "files w' = files w"
         "records J (function_keys F (ir w) (loops_of_list subs)) (pass_j w')"
         "n = NumLoops + 1 + int (length (filter (isLoopPerforable (ir w)) (loops_of_list subs)))"
      by auto
    have "records (pass_j w) (function_keys F (ir w) (loops_of ?L)) (pass_j w')"
      using records_trans [OF J(2) r(4)] True by (simp add: function_keys_Cons)
    then show ?thesis using True J(1) r by simp
  next
    case False
    from "1.IH"(2) [OF False "1.prems"] show ?thesis
      using False by (simp add: function_keys_Cons)
  qed
next
  case (2 F NumLoops w)
  then show ?case by (simp add: records_refl function_keys_def)
next
  case (3 F L Ls NumLoops w)
  from "3.IH"(1) [OF "3.prems"] obtain n w' where
    a: "handleLoop F L NumLoops w = Inr (n, w')" "ir w' = ir w" "files w' = files w"
       "records (pass_j w) (function_keys F (ir w) (loops_of L)) (pass_j w')"
       "n = NumLoops + int (length (filter (isLoopPerforable (ir w)) (loops_of L)))"
    by blast
  have "catalog_shape 3 (pass_j w')" using a(4) by (simp add: records_def)
  from "3.IH"(2) [OF a(1) refl this] obtain n' w'' where
    b: "handleLoops F Ls n w' = Inr (n', w'')" "ir w'' = ir w'" "files w'' = files w'"
       "records (pass_j w') (function_keys F (ir w') (loops_of_list Ls)) (pass_j w'')"
       "n' = n + int (length (filter (isLoopPerforable (ir w')) (loops_of_list Ls)))"
    by blast
  have "records (pass_j w) (function_keys F (ir w) (loops_of_list (L # Ls))) (pass_j w'')"
    using records_trans [OF a(4)] b(4) a(2) by (simp add: function_keys_append)
  then show ?case using a b by simp
qed

lemma handleLoop_frame:
  shows "handleLoop F L N w = Inr (n, w') \<Longrightarrow> ir w' = ir w \<and> files w' = files w"
    and "handleLoops F Ls N w = Inr (n, w') \<Longrightarrow> ir w' = ir w \<and> files w' = files w"
proof (induction F L N w and F Ls N w arbitrary: n w' and n w'
       rule: handleLoop_handleLoops.induct)
  case (1 F d subs NumLoops w)
  show ?case
  proof (cases "isLoopPerforable (ir w) (Loop d subs)")
    case True
    with "1.prems" obtain J where
      J: "subscript_assign (pass_j w) [fn_module F, fn_name F, StringifyLoop (Loop d subs)] JNull
            = Inr J"
      and r: "handleLoops F subs (NumLoops + 1) (w\<lparr>pass_j := J\<rparr>) = Inr (n, w')"
      by (simp split: sum.splits)
    from "1.IH"(1) [OF True J r] show ?thesis by simp
  next
    case False
    with "1.prems" have "handleLoops F subs NumLoops w = Inr (n, w')" by simp
    from "1.IH"(2) [OF False this] show ?thesis .
  qed
next
  case (2 F NumLoops w)
  then show ?case by simp
next
  case (3 F L Ls NumLoops w)
  from "3.prems" obtain m v where
    a: "handleLoop F L NumLoops w = Inr (m, v)" and b: "handleLoops F Ls m v = Inr (n, w')"
    by (auto split: sum.splits)
  from "3.IH"(1) [OF a] "3.IH"(2) [OF a refl b] show ?case by simp
qed

lemma handleLoop_none:
  shows "\<forall>L' \<in> set (loops_of L). \<not> isLoopPerforable (ir w) L' \<Longrightarrow>
         handleLoop F L N w = Inr (N, w)"
    and "\<forall>L' \<in> set (loops_of_list Ls). \<not> isLoopPerforable (ir w) L' \<Longrightarrow>
         handleLoops F Ls N w = Inr (N, w)"
proof (induction F L N w and F Ls N w rule: handleLoop_handleLoops.induct)
  case (1 F d subs NumLoops w)
  then show ?case by simp
next
  case (2 F NumLoops w)
  then show ?case by simp
next
  case (3 F L Ls NumLoops w)
  from "3.prems" have a: "handleLoop F L NumLoops w = Inr (NumLoops, w)"
    by (intro "3.IH"(1)) simp
  from "3.prems" have "handleLoops F Ls NumLoops w = Inr (NumLoops, w)"
    by (intro "3.IH"(2) [OF a refl]) simp
  with a show ?case by simp
qed

lemma runOnFunction_frame:
  "runOnFunction F LI w = Inr (changed, w') \<Longrightarrow> \<not> changed \<and> ir w' = ir w \<and> files w' = files w"
  using handleLoop_frame(2) [of F LI 0 w]
  by (auto simp: runOnFunction_def split: sum.splits)

lemma runOnFunction_records:
  assumes "catalog_shape 3 (pass_j w)"
  shows "\<exists>w'. runOnFunction F LI w = Inr (False, w') \<and> ir w' = ir w \<and> files w' = files w
           \<and> records (pass_j w) (function_keys F (ir w) (loops_of_list LI)) (pass_j w')"
  using handleLoop_records(2) [OF assms, of F LI 0]
  by (auto simp: runOnFunction_def)

lemma runLoopCountPass_records:
  "catalog_shape 3 (pass_j w) \<Longrightarrow>
   \<exists>w'. runLoopCountPass fs w = Inr w' \<and> ir w' = ir w \<and> files w' = files w
     \<and> records (pass_j w)
         (\<Union>(F, LI) \<in> set fs. function_keys F (ir w) (loops_of_list LI)) (pass_j w')"
proof (induction fs arbitrary: w)
  case Nil
  then show ?case by (simp add: records_refl)
next
  case (Cons a fs)
  obtain F LI where a: "a = (F, LI)" by (cases a)
  from runOnFunction_records [OF Cons.prems, of F LI] obtain w1 where
    r: "runOnFunction F LI w = Inr (False, w1)" "ir w1 = ir w" "files w1 = files w"
       "records (pass_j w) (function_keys F (ir w) (loops_of_list LI)) (pass_j w1)"
    by blast
  then have "catalog_shape 3 (pass_j w1)" by (simp add: records_def)
  from Cons.IH [OF this] obtain w2 where
    q: "runLoopCountPass fs w1 = Inr w2" "ir w2 = ir w1" "files w2 = files w1"
       "records (pass_j w1)
          (\<Union>(F, LI) \<in> set fs. function_keys F (ir w1) (loops_of_list LI)) (pass_j w2)"
    by blast
  have "records (pass_j w)
          (\<Union>(F, LI) \<in> set (a # fs). function_keys F (ir w) (loops_of_list LI)) (pass_j w2)"
    using records_trans [OF r(4) q(4)] r(2) a by simp
  then show ?case using a r q by simp
qed

lemma module_keys_iff:
  "[m, f, fp] \<in> (\<Union>(F, LI) \<in> set fs. function_keys F s (loops_of_list LI))
   \<longleftrightarrow> (\<exists>(F, LI) \<in> set fs. fn_module F = m \<and> fn_name F = f
                \<and> fp \<in> set (perforable_fingerprints s LI))"
  by (auto simp: function_keys_def perforable_fingerprints_def)

lemma fresh_catalog_run:
  assumes "pass_j w = JNull"
  shows "\<exists>w'. runLoopCountPass fs w = Inr w' \<and> ir w' = ir w \<and> files w' = files w
          \<and> (\<forall>m f fp. json_lookup (pass_j w') [m, f, fp]
                = (if \<exists>(F, LI) \<in> set fs. fn_module F = m \<and> fn_name F = f
                         \<and> fp \<in> set (perforable_fingerprints (ir w) LI)
                   then Some JNull else None))"
proof -
  have "catalog_shape 3 (pass_j w)" using assms by (simp add: catalog_shape_JNull)
  from runLoopCountPass_records [OF this, of fs] obtain w' where
    r: "runLoopCountPass fs w = Inr w'" "ir w' = ir w" "files w' = files w"
       "records (pass_j w)
          (\<Union>(F, LI) \<in> set fs. function_keys F (ir w) (loops_of_list LI)) (pass_j w')"
    by blast
  have "json_lookup (pass_j w') [m, f, fp]
          = (if \<exists>(F, LI) \<in> set fs. fn_module F = m \<and> fn_name F = f
                   \<and> fp \<in> set (perforable_fingerprints (ir w) LI)
             then Some JNull else None)" for m f fp
  proof -
    have "json_lookup (pass_j w') [m, f, fp]
            = (if [m, f, fp] \<in> (\<Union>(F, LI) \<in> set fs. function_keys F (ir w) (loops_of_list LI))
               then Some JNull else json_lookup (pass_j w) [m, f, fp])"
      using r(4) unfolding records_def by (simp del: json_lookup.simps)
    then show ?thesis
      unfolding module_keys_iff using assms by (simp add: json_lookup_JNull)
  qed
  then show ?thesis using r by blast
qed


subsection \<open>C4: the catalog holds exactly the perforable loops\<close>

text \<open>
  C4. A run of the loop-count pass over the functions of a module, from a fresh pass
  object, completes, and in the catalog it leaves the key (module, function, fingerprint)
  is present exactly when some function of that module name and function name has, in
  its loop forest, a loop that \<open>isLoopPerforable\<close> accepts with that fingerprint; the
  value stored is the placeholder that \<^verbatim>\<open>= {}\<close> assigns (null, which is empty). The
  forest is walked in full: \<open>perforable_fingerprints\<close> ranges over every loop of
  \<open>loops_of_list\<close>, the sub-loops of rejected loops included.
\<close>

theorem catalog_is_exactly_the_perforable_loops:
  assumes "pass_j w = JNull"
  shows "\<exists>w'. runLoopCountPass fs w = Inr w'
          \<and> (\<forall>m f fp. json_lookup (pass_j w') [m, f, fp]
                = (if \<exists>(F, LI) \<in> set fs. fn_module F = m \<and> fn_name F = f
                         \<and> fp \<in> set (perforable_fingerprints (ir w) LI)
                   then Some JNull else None))"
  using fresh_catalog_run [OF assms, of fs] by blast

theorem catalog_is_exactly_the_perforable_loops_witness:
  "pass_j (ex_state JNull) = JNull
   \<and> (\<exists>w'. runLoopCountPass [(ex_foo, [ex_outer]), (ex_bar, [ex_bar_loop])] (ex_state JNull)
             = Inr w'
          \<and> json_lookup (pass_j w') [''mod'', ''foo'', StringifyLoop ex_loop] = Some JNull
          \<and> json_lookup (pass_j w') [''mod'', ''foo'', StringifyLoop ex_outer] = None
          \<and> json_lookup (pass_j w') [''mod'', ''bar_NO_PERF'', StringifyLoop ex_bar_loop] = None)"
proof -
  have h: "pass_j (ex_state JNull) = JNull" by (simp add: ex_state_def)
  have fps: "perforable_fingerprints ex_ir [ex_outer] = [StringifyLoop ex_loop]"
            "perforable_fingerprints ex_ir [ex_bar_loop] = []"
    using ex_loop_perforable ex_bar_not_perforable ex_outer_not_perforable
    by (simp_all add: perforable_fingerprints_def ex_outer_def ex_loop_def ex_bar_loop_def)
  have ne: "StringifyLoop ex_outer \<noteq> StringifyLoop ex_loop"
    by (simp add: StringifyLoop_def ex_outer_def ex_loop_defs block_string_def
        ex_outer_header_def)
  from catalog_is_exactly_the_perforable_loops
         [OF h, of "[(ex_foo, [ex_outer]), (ex_bar, [ex_bar_loop])]"]
  obtain w' where
    run: "runLoopCountPass [(ex_foo, [ex_outer]), (ex_bar, [ex_bar_loop])] (ex_state JNull)
            = Inr w'"
    and cat: "\<forall>m f fp. json_lookup (pass_j w') [m, f, fp]
                = (if \<exists>(F, LI) \<in> set [(ex_foo, [ex_outer]), (ex_bar, [ex_bar_loop])].
                         fn_module F = m \<and> fn_name F = f
                         \<and> fp \<in> set (perforable_fingerprints (ir (ex_state JNull)) LI)
                   then Some JNull else None)"
    by (elim exE conjE) (rule that)
  have s: "ir (ex_state JNull) = ex_ir" by (simp add: ex_state_def)
  have 1: "json_lookup (pass_j w') [''mod'', ''foo'', StringifyLoop ex_loop] = Some JNull"
    using cat [rule_format, of "''mod''" "''foo''" "StringifyLoop ex_loop"]
    unfolding s by (simp add: fps ex_foo_def del: json_lookup.simps)
  have 2: "json_lookup (pass_j w') [''mod'', ''foo'', StringifyLoop ex_outer] = None"
    using cat [rule_format, of "''mod''" "''foo''" "StringifyLoop ex_outer"]
    unfolding s by (simp add: fps ex_foo_def ex_bar_def ne del: json_lookup.simps)
  have 3: "json_lookup (pass_j w') [''mod'', ''bar_NO_PERF'', StringifyLoop ex_bar_loop] = None"
    using cat [rule_format, of "''mod''" "''bar_NO_PERF''" "StringifyLoop ex_bar_loop"]
    unfolding s by (simp add: fps ex_foo_def ex_bar_def del: json_lookup.simps)
  from h run 1 2 3 show ?thesis by blast
qed


subsection \<open>C9: the loop-count pass leaves the IR alone\<close>

text \<open>
  C9. Whenever \<open>runOnFunction\<close> returns, it returns "no change" and the IR and the
  files are as before; in every state that a run from a fresh pass object reaches it
  does return; and the destructor changes nothing but the one file named by
  \<^verbatim>\<open>-info\<close>, which then holds the serialised catalog and a newline.
\<close>

theorem discovery_leaves_the_ir_alone:
  "(\<forall>changed w'. runOnFunction F LI w = Inr (changed, w')
        \<longrightarrow> \<not> changed \<and> ir w' = ir w \<and> files w' = files w)
   \<and> (pass_j w0 = JNull \<longrightarrow>
        (\<exists>w1. runLoopCountPass fs w0 = Inr w1 \<and> ir w1 = ir w0 \<and> files w1 = files w0
           \<and> (\<exists>w2. runOnFunction F LI w1 = Inr (False, w2) \<and> ir w2 = ir w1
                     \<and> files w2 = files w1)))
   \<and> ir (LoopCountPass_destructor dump4 InfoFilename w) = ir w
   \<and> pass_j (LoopCountPass_destructor dump4 InfoFilename w) = pass_j w
   \<and> files (LoopCountPass_destructor dump4 InfoFilename w)
       = (files w)(InfoFilename \<mapsto> dump4 (pass_j w) @ [CHR 0x0A])"
proof -
  have a: "\<forall>changed w'. runOnFunction F LI w = Inr (changed, w')
        \<longrightarrow> \<not> changed \<and> ir w' = ir w \<and> files w' = files w"
    using runOnFunction_frame by blast
  have b: "\<exists>w1. runLoopCountPass fs w0 = Inr w1 \<and> ir w1 = ir w0 \<and> files w1 = files w0
           \<and> (\<exists>w2. runOnFunction F LI w1 = Inr (False, w2) \<and> ir w2 = ir w1
                     \<and> files w2 = files w1)" if "pass_j w0 = JNull"
  proof -
    from that have "catalog_shape 3 (pass_j w0)" by (simp add: catalog_shape_JNull)
    from runLoopCountPass_records [OF this, of fs] obtain w1 where
      r: "runLoopCountPass fs w0 = Inr w1" "ir w1 = ir w0" "files w1 = files w0"
         "catalog_shape 3 (pass_j w1)"
      by (auto simp: records_def)
    from runOnFunction_records [OF r(4), of F LI] r(1,2,3) show ?thesis by blast
  qed
  have c: "ir (LoopCountPass_destructor dump4 InfoFilename w) = ir w
   \<and> pass_j (LoopCountPass_destructor dump4 InfoFilename w) = pass_j w
   \<and> files (LoopCountPass_destructor dump4 InfoFilename w)
       = (files w)(InfoFilename \<mapsto> dump4 (pass_j w) @ [CHR 0x0A])"
    by (simp add: LoopCountPass_destructor_def)
  from a b c show ?thesis by blast
qed

theorem discovery_leaves_the_ir_alone_witness:
  "pass_j (ex_state JNull) = JNull
   \<and> (\<exists>w1. runLoopCountPass [(ex_foo, [ex_outer])] (ex_state JNull) = Inr w1
          \<and> ir w1 = ex_ir \<and> files w1 = Map.empty
          \<and> (\<exists>w2. runOnFunction ex_bar [ex_bar_loop] w1 = Inr (False, w2) \<and> ir w2 = ex_ir))"
proof -
  have h: "pass_j (ex_state JNull) = JNull" by (simp add: ex_state_def)
  have s: "ir (ex_state JNull) = ex_ir" "files (ex_state JNull) = Map.empty"
    by (simp_all add: ex_state_def)
  from discovery_leaves_the_ir_alone
         [of ex_bar "[ex_bar_loop]" "ex_state JNull" "ex_state JNull" "[(ex_foo, [ex_outer])]"]
       h
  have "\<exists>w1. runLoopCountPass [(ex_foo, [ex_outer])] (ex_state JNull) = Inr w1
          \<and> ir w1 = ir (ex_state JNull) \<and> files w1 = files (ex_state JNull)
          \<and> (\<exists>w2. runOnFunction ex_bar [ex_bar_loop] w1 = Inr (False, w2) \<and> ir w2 = ir w1
                    \<and> files w2 = files w1)"
    by blast
  then show ?thesis unfolding s using h by auto
qed


subsection \<open>C2: the rewrite of the increment\<close>

lemma swrap_id: "0 < w \<Longrightarrow> - (2 ^ (w - 1)) \<le> x \<Longrightarrow> x < 2 ^ (w - 1) \<Longrightarrow> swrap w x = x"
proof -
  assume w: "0 < w" and lo: "- (2 ^ (w - 1)) \<le> x" and hi: "x < 2 ^ (w - 1)"
  have p: "(2::int) ^ w = 2 * 2 ^ (w - 1)"
    using w by (cases w) simp_all
  have "0 \<le> x + 2 ^ (w - 1)" using lo by simp
  moreover have "x + 2 ^ (w - 1) < 2 ^ w" using hi p by simp
  ultimately have "(x + 2 ^ (w - 1)) mod 2 ^ w = x + 2 ^ (w - 1)" by simp
  then show ?thesis by (simp add: swrap_def)
qed

lemma rewriteOperands_eq:
  "rewriteOperands w F L p inc i ops =
     (case firstNonIV p i ops of
        None \<Rightarrow> Inr (False, w)
      | Some (k, Op) \<Rightarrow>
          (case (if \<not> json_empty (pass_j w)
                 then json_to_int
                        (json_at (json_at (json_at (pass_j w) (fn_module F)) (fn_name F))
                           (StringifyLoop L))
                 else Inr 1) of
             Inl e \<Rightarrow> Inl e
           | Inr LoopRate \<Rightarrow>
               (case ConstantInt_get (typeOf (ir w) Op) LoopRate of
                  Inl e \<Rightarrow> Inl e
                | Inr NewInc \<Rightarrow> Inr (True, w\<lparr>ir := setOperand (ir w) inc k NewInc\<rparr>))))"
  by (induction ops arbitrary: i) simp_all

lemma firstNonIV_Some:
  "firstNonIV p i ops = Some (k, Op) \<Longrightarrow>
     i \<le> k \<and> k - i < length ops \<and> ops ! (k - i) = Op \<and> Op \<noteq> Ref p
     \<and> (\<forall>m < k - i. ops ! m = Ref p)"
proof (induction ops arbitrary: i)
  case Nil
  then show ?case by simp
next
  case (Cons a ops)
  show ?case
  proof (cases "a = Ref p")
    case True
    with Cons.prems have "firstNonIV p (Suc i) ops = Some (k, Op)" by simp
    from Cons.IH [OF this] have
      h: "Suc i \<le> k" "k - Suc i < length ops" "ops ! (k - Suc i) = Op" "Op \<noteq> Ref p"
         "\<forall>m < k - Suc i. ops ! m = Ref p"
      by simp_all
    from h(1) have e: "k - i = Suc (k - Suc i)" by simp
    have "\<forall>m < k - i. (a # ops) ! m = Ref p"
    proof (intro allI impI)
      fix m assume "m < k - i"
      then show "(a # ops) ! m = Ref p"
        using True h(5) e by (cases m) simp_all
    qed
    then show ?thesis using h e by simp
  next
    case False
    with Cons.prems show ?thesis by simp
  qed
qed

lemma firstNonIV_None: "firstNonIV p i ops = None \<longleftrightarrow> (\<forall>Op \<in> set ops. Op = Ref p)"
  by (induction ops arbitrary: i) simp_all

lemma setOperand_operands:
  "operands (setOperand s u i v a) = (if a = u then (operands (s u))[i := v] else operands (s a))"
  by (auto simp: setOperand_def dropUse_def Let_def split: Value.splits)

lemma setOperand_kind: "kind (setOperand s u i v a) = kind (s a)"
  by (auto simp: setOperand_def dropUse_def Let_def split: Value.splits)

lemma setOperand_getType: "getType (setOperand s u i v a) = getType (s a)"
  by (auto simp: setOperand_def dropUse_def Let_def split: Value.splits)

lemma runOnLoop_rewrites:
  assumes e: "table_entry (pass_j w) L = Some (JInt R)"
    and f: "findIncrement (ir w) L = Some (p, inc)"
    and o: "firstNonIV p 0 (operands (ir w inc)) = Some (k, Op)"
    and t: "typeOf (ir w) Op = IntegerTy width"
  shows "runOnLoop L w
           = Inr (True, w\<lparr>ir := setOperand (ir w) inc k
                                  (ConstantInt width (swrap width (swrap 32 R)))\<rparr>)"
proof -
  let ?F = "getParent (getHeader L)"
  from e have ne: "\<not> json_empty (pass_j w)"
    using json_empty_lookup [of "pass_j w"] by (auto simp: table_entry_def loop_key_def)
  from e have at: "json_at (json_at (json_at (pass_j w) (fn_module ?F)) (fn_name ?F))
                     (StringifyLoop L) = JInt R"
    by (intro lookup_json_at) (simp add: table_entry_def loop_key_def)
  from e have "table_entry (pass_j w) L \<noteq> None" by simp
  from runOnLoop_present [OF this] f
  have "runOnLoop L w = rewriteOperands w ?F L p inc 0 (operands (ir w inc))" by simp
  also have "\<dots> = Inr (True, w\<lparr>ir := setOperand (ir w) inc k
                                  (ConstantInt width (swrap width (swrap 32 R)))\<rparr>)"
    unfolding rewriteOperands_eq o using ne at t
    by (simp add: json_to_int_def ConstantInt_get_def)
  finally show ?thesis .
qed


text \<open>
  C2, as the code has it. Let the rate table hold the integer \<open>R\<close> under the key of \<open>L\<close>,
  let \<open>L\<close> still be perforable, with induction variable \<open>p\<close> and increment \<open>inc\<close>, and let
  the first operand of \<open>inc\<close> that is not \<open>p\<close> be operand \<open>k\<close>, of an integer type of
  \<open>width\<close> bits. Then the rewrite pass returns "changed" once; operand \<open>k\<close> of \<open>inc\<close>
  becomes the constant of that type whose value is \<open>R\<close> cast to the 32-bit \<^verbatim>\<open>int\<close> and
  cut to \<open>width\<close> bits, which is \<open>R\<close> itself when \<open>R\<close> fits both; every other operand of
  \<open>inc\<close> (a second operand that is not \<open>p\<close> too) and every operand of every other node
  is as before; the table and the files are as before.

  The claim as worded fails for a rate that does not fit: with the rate 4294967300 in
  the table the step of the loop of \<open>foo\<close> becomes the constant 4.
\<close>

theorem rewrite_replaces_first_non_iv_operand:
  assumes "table_entry (pass_j w) L = Some (JInt R)"
    and "isLoopPerforable (ir w) L"
    and "findIncrement (ir w) L = Some (p, inc)"
    and "firstNonIV p 0 (operands (ir w inc)) = Some (k, Op)"
    and "typeOf (ir w) Op = IntegerTy width"
  shows "\<exists>w'. runOnLoop L w = Inr (True, w')
           \<and> pass_j w' = pass_j w \<and> files w' = files w
           \<and> operands (ir w' inc)
               = (operands (ir w inc))[k := ConstantInt width (swrap width (swrap 32 R))]
           \<and> k < length (operands (ir w inc)) \<and> operands (ir w inc) ! k = Op \<and> Op \<noteq> Ref p
           \<and> (\<forall>m < k. operands (ir w inc) ! m = Ref p)
           \<and> (\<forall>m. m \<noteq> k \<longrightarrow> operands (ir w' inc) ! m = operands (ir w inc) ! m)
           \<and> (\<forall>a. a \<noteq> inc \<longrightarrow> operands (ir w' a) = operands (ir w a))
           \<and> (\<forall>a. kind (ir w' a) = kind (ir w a) \<and> getType (ir w' a) = getType (ir w a))
           \<and> typeOf (ir w') (operands (ir w' inc) ! k) = typeOf (ir w) Op
           \<and> (0 < width \<and> - (2 ^ 31) \<le> R \<and> R < 2 ^ 31
                \<and> - (2 ^ (width - 1)) \<le> R \<and> R < 2 ^ (width - 1)
              \<longrightarrow> operands (ir w' inc) ! k = ConstantInt width R)"
proof -
  let ?c = "ConstantInt width (swrap width (swrap 32 R))"
  let ?w' = "w\<lparr>ir := setOperand (ir w) inc k ?c\<rparr>"
  have run: "runOnLoop L w = Inr (True, ?w')"
    using assms(1,3,4,5) by (rule runOnLoop_rewrites)
  from firstNonIV_Some [OF assms(4)] have
    k: "k < length (operands (ir w inc))" "operands (ir w inc) ! k = Op" "Op \<noteq> Ref p"
       "\<forall>m < k. operands (ir w inc) ! m = Ref p"
    by simp_all
  have fit: "operands (ir ?w' inc) ! k = ConstantInt width R"
    if "0 < width \<and> - (2 ^ 31) \<le> R \<and> R < 2 ^ 31
          \<and> - (2 ^ (width - 1)) \<le> R \<and> R < 2 ^ (width - 1)"
  proof -
    from that have "swrap 32 R = R" by (intro swrap_id) simp_all
    moreover from that have "swrap width R = R" by (intro swrap_id) simp_all
    ultimately show ?thesis using k(1) by (simp add: setOperand_operands)
  qed
  have "pass_j ?w' = pass_j w \<and> files ?w' = files w
           \<and> operands (ir ?w' inc) = (operands (ir w inc))[k := ?c]
           \<and> (\<forall>m. m \<noteq> k \<longrightarrow> operands (ir ?w' inc) ! m = operands (ir w inc) ! m)
           \<and> (\<forall>a. a \<noteq> inc \<longrightarrow> operands (ir ?w' a) = operands (ir w a))
           \<and> (\<forall>a. kind (ir ?w' a) = kind (ir w a) \<and> getType (ir ?w' a) = getType (ir w a))
           \<and> typeOf (ir ?w') (operands (ir ?w' inc) ! k) = typeOf (ir w) Op"
    using k(1) assms(5)
    by (simp add: setOperand_operands setOperand_kind setOperand_getType typeOf_def)
  with run k fit show ?thesis by blast
qed

theorem rewrite_replaces_first_non_iv_operand_witness:
  "table_entry (pass_j (ex_state (ex_rates 4))) ex_loop = Some (JInt 4)
   \<and> isLoopPerforable (ir (ex_state (ex_rates 4))) ex_loop
   \<and> findIncrement (ir (ex_state (ex_rates 4))) ex_loop = Some (1, 2)
   \<and> firstNonIV 1 0 (operands (ir (ex_state (ex_rates 4)) 2)) = Some (1, ConstantInt 32 1)
   \<and> typeOf (ir (ex_state (ex_rates 4))) (ConstantInt 32 1) = IntegerTy 32
   \<and> (\<exists>w'. runOnLoop ex_loop (ex_state (ex_rates 4)) = Inr (True, w')
          \<and> operands (ir w' 2) = [Ref 1, ConstantInt 32 4])"
proof -
  let ?w = "ex_state (ex_rates 4)"
  have s: "ir ?w = ex_ir" "pass_j ?w = ex_rates 4" by (simp_all add: ex_state_def)
  have h1: "table_entry (pass_j ?w) ex_loop = Some (JInt 4)"
    unfolding s by (rule ex_table_entry)
  have h2: "isLoopPerforable (ir ?w) ex_loop"
    unfolding s by (rule ex_loop_perforable)
  have h3: "findIncrement (ir ?w) ex_loop = Some (1, 2)"
    unfolding s by (rule ex_findIncrement)
  have h4: "firstNonIV 1 0 (operands (ir ?w 2)) = Some (1, ConstantInt 32 1)"
    unfolding s by (rule ex_firstNonIV)
  have h5: "typeOf (ir ?w) (ConstantInt 32 1) = IntegerTy 32"
    by (simp add: typeOf_def)
  from rewrite_replaces_first_non_iv_operand [OF h1 h2 h3 h4 h5] obtain w' where
    r: "runOnLoop ex_loop ?w = Inr (True, w')"
       "operands (ir w' 2)
          = (operands (ir ?w 2))[1 := ConstantInt 32 (swrap 32 (swrap 32 4))]"
    by blast
  have "swrap 32 (swrap 32 4) = 4" by (simp add: swrap_def)
  with r(2) have "operands (ir w' 2) = [Ref 1, ConstantInt 32 4]"
    unfolding s by (simp add: ex_ir_defs)
  with r(1) h1 h2 h3 h4 h5 show ?thesis by blast
qed

theorem rate_out_of_range_counterexample:
  "table_entry (pass_j (ex_state (ex_rates 4294967300))) ex_loop = Some (JInt 4294967300)
   \<and> isLoopPerforable ex_ir ex_loop
   \<and> runOnLoop ex_loop (ex_state (ex_rates 4294967300))
       = Inr (True, (ex_state (ex_rates 4294967300))\<lparr>ir := ex_ir_step 1 4\<rparr>)
   \<and> operands (ex_ir_step 1 4 2) = [Ref 1, ConstantInt 32 4]
   \<and> ConstantInt 32 4 \<noteq> ConstantInt 32 4294967300"
proof -
  let ?w = "ex_state (ex_rates 4294967300)"
  have s: "ir ?w = ex_ir" "pass_j ?w = ex_rates 4294967300" by (simp_all add: ex_state_def)
  have h1: "table_entry (pass_j ?w) ex_loop = Some (JInt 4294967300)"
    unfolding s by (rule ex_table_entry)
  have h3: "findIncrement (ir ?w) ex_loop = Some (1, 2)"
    unfolding s by (rule ex_findIncrement)
  have h4: "firstNonIV 1 0 (operands (ir ?w 2)) = Some (1, ConstantInt 32 1)"
    unfolding s by (rule ex_firstNonIV)
  have h5: "typeOf (ir ?w) (ConstantInt 32 1) = IntegerTy 32"
    by (simp add: typeOf_def)
  have w: "swrap 32 (swrap 32 4294967300) = 4" by (simp add: swrap_def)
  have "runOnLoop ex_loop ?w = Inr (True, ?w\<lparr>ir := ex_ir_step 1 4\<rparr>)"
    using runOnLoop_rewrites [OF h1 h3 h4 h5] unfolding w s by (simp add: ex_setOperand)
  moreover have "operands (ex_ir_step 1 4 2) = [Ref 1, ConstantInt 32 4]"
    by (simp add: ex_ir_step_def)
  ultimately show ?thesis using h1 ex_loop_perforable by simp
qed


subsection \<open>C3: functions that opt out\<close>

text \<open>
  C3, as the code has it. For a function whose name contains \<open>NO_PERF\<close>:
  \<open>isLoopPerforable\<close> rejects every loop of it; \<open>runOnFunction\<close> on it returns the state
  it was given, so nothing is cataloged; and the rewrite pass, which does not look at
  the function name, skips a loop of it whenever the rate table has no entry for the
  loop. That is the case for every rate table whose keys are keys of the catalog that
  the loop-count pass built for the module.

  The claim as worded fails: with an entry for the loop of \<open>bar_NO_PERF\<close> in the rate
  table, the rewrite pass sets the step of that loop to 4.
\<close>

theorem no_perf_functions_excluded:
  assumes "sublist ''NO_PERF'' (fn_name F0)"
  shows "(\<forall>s L. getParent (getHeader L) = F0 \<longrightarrow> \<not> isLoopPerforable s L)
       \<and> (\<forall>w LI. (\<forall>L \<in> set (loops_of_list LI). getParent (getHeader L) = F0)
              \<longrightarrow> runOnFunction F0 LI w = Inr (False, w))
       \<and> (\<forall>w L. getParent (getHeader L) = F0 \<and> table_entry (pass_j w) L = None
              \<longrightarrow> runOnLoop L w = Inr (False, w))
       \<and> (\<forall>fs w0 w1 w L.
             pass_j w0 = JNull \<and> runLoopCountPass fs w0 = Inr w1
             \<and> (\<forall>(F, LI) \<in> set fs. \<forall>L' \<in> set (loops_of_list LI). getParent (getHeader L') = F)
             \<and> (table_entry (pass_j w) L \<noteq> None \<longrightarrow> table_entry (pass_j w1) L \<noteq> None)
             \<and> getParent (getHeader L) = F0
             \<longrightarrow> runOnLoop L w = Inr (False, w))"
proof (intro conjI allI impI)
  fix s L assume "getParent (getHeader L) = F0"
  with assms have "sublist ''NO_PERF'' (fn_name (getParent (getHeader L)))" by simp
  then show "\<not> isLoopPerforable s L" by (rule no_perf_not_perforable)
next
  fix w :: State and LI
  assume "\<forall>L \<in> set (loops_of_list LI). getParent (getHeader L) = F0"
  with assms have "\<forall>L \<in> set (loops_of_list LI).
      sublist ''NO_PERF'' (fn_name (getParent (getHeader L)))" by simp
  then have "\<forall>L \<in> set (loops_of_list LI). \<not> isLoopPerforable (ir w) L"
    using no_perf_not_perforable by blast
  from handleLoop_none(2) [OF this] show "runOnFunction F0 LI w = Inr (False, w)"
    by (simp add: runOnFunction_def)
next
  fix w :: State and L
  assume "getParent (getHeader L) = F0 \<and> table_entry (pass_j w) L = None"
  then show "runOnLoop L w = Inr (False, w)" by (intro runOnLoop_absent) simp
next
  fix fs and w0 w1 w :: State and L
  assume a: "pass_j w0 = JNull \<and> runLoopCountPass fs w0 = Inr w1
             \<and> (\<forall>(F, LI) \<in> set fs. \<forall>L' \<in> set (loops_of_list LI). getParent (getHeader L') = F)
             \<and> (table_entry (pass_j w) L \<noteq> None \<longrightarrow> table_entry (pass_j w1) L \<noteq> None)
             \<and> getParent (getHeader L) = F0"
  have "table_entry (pass_j w1) L = None"
  proof (rule ccontr)
    assume ne: "table_entry (pass_j w1) L \<noteq> None"
    from fresh_catalog_run [of w0 fs] a
    have cat: "json_lookup (pass_j w1) [fn_module F0, fn_name F0, StringifyLoop L]
                 = (if \<exists>(F, LI) \<in> set fs. fn_module F = fn_module F0 \<and> fn_name F = fn_name F0
                          \<and> StringifyLoop L \<in> set (perforable_fingerprints (ir w0) LI)
                    then Some JNull else None)"
      by auto
    with ne a obtain F LI where
      m: "(F, LI) \<in> set fs" "fn_name F = fn_name F0"
         "StringifyLoop L \<in> set (perforable_fingerprints (ir w0) LI)"
      by (auto simp: table_entry_def loop_key_def simp del: json_lookup.simps split: if_splits)
    from m(3) obtain L' where
      L': "L' \<in> set (loops_of_list LI)" "isLoopPerforable (ir w0) L'"
      by (auto simp: perforable_fingerprints_def)
    from a m(1) L'(1) have "getParent (getHeader L') = F" by blast
    with m(2) assms have "sublist ''NO_PERF'' (fn_name (getParent (getHeader L')))"
      by simp
    from no_perf_not_perforable [OF this] L'(2) show False by blast
  qed
  with a have "table_entry (pass_j w) L = None" by blast
  then show "runOnLoop L w = Inr (False, w)" by (rule runOnLoop_absent)
qed

theorem no_perf_functions_excluded_witness:
  "sublist ''NO_PERF'' (fn_name ex_bar)
   \<and> \<not> isLoopPerforable ex_ir ex_bar_loop
   \<and> runOnFunction ex_bar [ex_bar_loop] (ex_state JNull) = Inr (False, ex_state JNull)
   \<and> runOnLoop ex_bar_loop (ex_state (ex_rates 4)) = Inr (False, ex_state (ex_rates 4))"
proof -
  have h: "sublist ''NO_PERF'' (fn_name ex_bar)"
  proof -
    have "fn_name ex_bar = ''bar_'' @ ''NO_PERF'' @ []" by (simp add: ex_bar_def)
    then show ?thesis unfolding sublist_def by blast
  qed
  have p: "getParent (getHeader ex_bar_loop) = ex_bar"
    by (simp add: ex_bar_loop_def getHeader_def ex_bar_cond_def)
  have l: "\<forall>L \<in> set (loops_of_list [ex_bar_loop]). getParent (getHeader L) = ex_bar"
    using p by (simp add: ex_bar_loop_def)
  have e: "table_entry (pass_j (ex_state (ex_rates 4))) ex_bar_loop = None"
    by (simp add: table_entry_def loop_key_def ex_state_def ex_rates_def ex_bar_loop_defs)
  note t = no_perf_functions_excluded [OF h]
  from t p have 1: "\<not> isLoopPerforable ex_ir ex_bar_loop" by blast
  from t l have 2: "runOnFunction ex_bar [ex_bar_loop] (ex_state JNull)
                      = Inr (False, ex_state JNull)" by blast
  from t p e have 3: "runOnLoop ex_bar_loop (ex_state (ex_rates 4))
                        = Inr (False, ex_state (ex_rates 4))" by blast
  from h 1 2 3 show ?thesis by blast
qed

theorem no_perf_entry_is_rewritten_counterexample:
  "sublist ''NO_PERF'' (fn_name (getParent (getHeader ex_bar_loop)))
   \<and> runOnLoop ex_bar_loop (ex_state (ex_bar_rates 4))
       = Inr (True, (ex_state (ex_bar_rates 4))\<lparr>ir := ex_ir_step 21 4\<rparr>)
   \<and> operands (ex_ir 22) = [Ref 21, ConstantInt 32 1]
   \<and> operands (ex_ir_step 21 4 22) = [Ref 21, ConstantInt 32 4]"
proof -
  let ?w = "ex_state (ex_bar_rates 4)"
  have s: "ir ?w = ex_ir" "pass_j ?w = ex_bar_rates 4" by (simp_all add: ex_state_def)
  have h1: "table_entry (pass_j ?w) ex_bar_loop = Some (JInt 4)"
    unfolding s by (rule ex_bar_table_entry)
  have h3: "findIncrement (ir ?w) ex_bar_loop = Some (21, 22)"
    unfolding s by (rule ex_bar_findIncrement)
  have h4: "firstNonIV 21 0 (operands (ir ?w 22)) = Some (1, ConstantInt 32 1)"
    unfolding s by (rule ex_bar_firstNonIV)
  have h5: "typeOf (ir ?w) (ConstantInt 32 1) = IntegerTy 32"
    by (simp add: typeOf_def)
  have w: "swrap 32 (swrap 32 4) = 4" by (simp add: swrap_def)
  have "runOnLoop ex_bar_loop ?w = Inr (True, ?w\<lparr>ir := ex_ir_step 21 4\<rparr>)"
    using runOnLoop_rewrites [OF h1 h3 h4 h5] unfolding w s by (simp add: ex_bar_setOperand)
  moreover have "sublist ''NO_PERF'' (fn_name (getParent (getHeader ex_bar_loop)))"
  proof -
    have "fn_name (getParent (getHeader ex_bar_loop)) = ''bar_'' @ ''NO_PERF'' @ []"
      by (simp add: ex_bar_loop_defs)
    then show ?thesis unfolding sublist_def by blast
  qed
  moreover have "operands (ex_ir 22) = [Ref 21, ConstantInt 32 1]"
    by (simp add: ex_ir_defs)
  moreover have "operands (ex_ir_step 21 4 22) = [Ref 21, ConstantInt 32 4]"
    by (simp add: ex_ir_step_def)
  ultimately show ?thesis by simp
qed

subsection \<open>C10: the rewrite pass meets no null pointer\<close>

lemma contract_increment:
  assumes c: "canonicalIV_contract s L"
    and f: "findIncrement s L = Some (p, inc)"
  shows "\<exists>b. operands (s inc) = [Ref p, b] \<and> isConstantInt b"
proof -
  from f have iv: "getCanonicalInductionVariable L = Some p"
    and sc: "scanUsers (users (s p)) (incoming_values (s p)) None = Some (Ref inc)"
    by (simp_all add: findIncrement_Some)
  from scanUsers_mem [OF sc] have mem: "Ref inc \<in> set (incoming_values (s p))" by simp
  from c iv obtain a b where
    ab: "incoming_values (s p) = [a, b]"
        "(isConstantInt a \<and> canonicalIncrement s p b) \<or> (isConstantInt b \<and> canonicalIncrement s p a)"
    by (auto simp: canonicalIV_contract_def split: list.splits)
  have "canonicalIncrement s p (Ref inc)"
    using mem ab by (auto simp: isConstantInt_def)
  then show ?thesis
    by (auto simp: canonicalIncrement_def split: list.splits)
qed


text \<open>
  C10. Let the key of \<open>L\<close> be in the rate table, let \<open>L\<close> be perforable, and let its
  canonical induction variable be what LLVM promises. Then the rewrite pass finds the
  induction variable, the scan finds an updating value, the cast to a binary operator
  succeeds, that operator has an operand other than the induction variable, and the
  pass neither dereferences a null pointer nor falls through to the last line: it does
  not return "unchanged". (What is left is the rewrite, or the type error of the JSON
  library when the entry is not a number.)
\<close>

theorem rewrite_derivation_never_null:
  assumes "table_entry (pass_j w) L \<noteq> None"
    and "isLoopPerforable (ir w) L"
    and "canonicalIV_contract (ir w) L"
  shows "\<exists>p inc. getCanonicalInductionVariable L = Some p
           \<and> scanUsers (users (ir w p)) (incoming_values (ir w p)) None = Some (Ref inc)
           \<and> dyn_cast_BinaryOperator (ir w) (Ref inc) = Some inc
           \<and> (\<exists>Op \<in> set (operands (ir w inc)). Op \<noteq> Ref p)
           \<and> runOnLoop L w \<noteq> Inl NullPointer
           \<and> runOnLoop L w \<noteq> Inl NotIntegerType
           \<and> (\<forall>w'. runOnLoop L w \<noteq> Inr (False, w'))"
proof -
  from assms(2) obtain p inc where f: "findIncrement (ir w) L = Some (p, inc)"
    by (auto simp: perforable_findIncrement)
  then have d: "getCanonicalInductionVariable L = Some p"
    "scanUsers (users (ir w p)) (incoming_values (ir w p)) None = Some (Ref inc)"
    "dyn_cast_BinaryOperator (ir w) (Ref inc) = Some inc"
    by (simp_all add: findIncrement_Some dyn_cast_iff)
  from contract_increment [OF assms(3) f] obtain b where
    b: "operands (ir w inc) = [Ref p, b]" "isConstantInt b"
    by blast
  then obtain width x where bx: "b = ConstantInt width x"
    by (cases b) (simp_all add: isConstantInt_def)
  have ne: "b \<noteq> Ref p" using bx by simp
  have first: "firstNonIV p 0 (operands (ir w inc)) = Some (1, b)"
    using b(1) ne by simp
  have ty: "typeOf (ir w) b = IntegerTy width"
    using bx by (simp add: typeOf_def)
  have run: "runOnLoop L w = rewriteOperands w (getParent (getHeader L)) L p inc 0
                               (operands (ir w inc))"
    using runOnLoop_present [OF assms(1)] f by simp
  have "runOnLoop L w \<noteq> Inl NullPointer \<and> runOnLoop L w \<noteq> Inl NotIntegerType
          \<and> (\<forall>w'. runOnLoop L w \<noteq> Inr (False, w'))"
    unfolding run rewriteOperands_eq first using ty
    by (auto simp: ConstantInt_get_def json_to_int_def split: sum.splits json.splits)
  moreover have "\<exists>Op \<in> set (operands (ir w inc)). Op \<noteq> Ref p"
    using b(1) ne by simp
  ultimately show ?thesis using d by blast
qed

theorem rewrite_derivation_never_null_witness:
  "table_entry (pass_j (ex_state (ex_rates 4))) ex_loop \<noteq> None
   \<and> isLoopPerforable (ir (ex_state (ex_rates 4))) ex_loop
   \<and> canonicalIV_contract (ir (ex_state (ex_rates 4))) ex_loop
   \<and> runOnLoop ex_loop (ex_state (ex_rates 4)) \<noteq> Inl NullPointer
   \<and> runOnLoop ex_loop (ex_state (ex_rates 4))
       \<noteq> Inr (False, ex_state (ex_rates 4))"
proof -
  let ?w = "ex_state (ex_rates 4)"
  have s: "ir ?w = ex_ir" "pass_j ?w = ex_rates 4" by (simp_all add: ex_state_def)
  have h1: "table_entry (pass_j ?w) ex_loop \<noteq> None"
    unfolding s by (simp add: ex_table_entry)
  have h2: "isLoopPerforable (ir ?w) ex_loop"
    unfolding s by (rule ex_loop_perforable)
  have h3: "canonicalIV_contract (ir ?w) ex_loop"
    unfolding s by (rule ex_contract)
  from rewrite_derivation_never_null [OF h1 h2 h3] h1 h2 h3 show ?thesis by blast
qed


end
